theory Spec2Isabelle
  imports Main
begin

section \<open>Exceptions\<close>

text \<open>
  The Python exceptions that the lifecycle manager and the settings proxy raise, catch
  or let through. \<open>RuntimeError\<close> carries its message and the exception it was raised
  \<^verbatim>\<open>from\<close> (its cause). \<open>OtherError\<close> stands for any exception of user code that is
  none of the named kinds.
\<close>

datatype exn =
    ValueError string
  | RuntimeError string "exn option"
  | TypeError string
  | AttributeError string
  | KeyError string
  | RecursionError
  | NetworkXUnfeasible
  | ConfigurationError string
  | OtherError string

section \<open>Global objects and their classes\<close>

text \<open>
  \<^verbatim>\<open>GlobalObject.__init__\<close> stores one field, \<^verbatim>\<open>get_fn\<close>, an optional zero-argument
  callable. Subclasses add fields: they are extensions of this record.
\<close>

record 'v global_object =
  get_fn :: "(unit \<Rightarrow> 'v) option"

text \<open>
  What the manager uses of a registered class: its \<^verbatim>\<open>__name__\<close>, the result of the
  class method \<^verbatim>\<open>param_name()\<close> (a subclass may return \<^verbatim>\<open>None\<close>), the constructor
  called with the named dependency instances, and the methods \<^verbatim>\<open>setup\<close> and
  \<^verbatim>\<open>teardown\<close>. A method mutates its object in place and may raise: it returns the
  exception, if any, and the object as it is left.
\<close>

record ('v, 'z) class_def =
  cls_name :: string
  cls_param_name :: "string option"
  cls_init :: "(string \<rightharpoonup> ('v, 'z) global_object_scheme) \<Rightarrow> exn + ('v, 'z) global_object_scheme"
  cls_setup :: "('v, 'z) global_object_scheme \<Rightarrow> exn option \<times> ('v, 'z) global_object_scheme"
  cls_teardown :: "('v, 'z) global_object_scheme \<Rightarrow> exn option \<times> ('v, 'z) global_object_scheme"

text \<open>
  The methods of the base class \<^verbatim>\<open>GlobalObject\<close>, which a subclass inherits unless it
  overrides them: \<^verbatim>\<open>setup\<close> and \<^verbatim>\<open>teardown\<close> do nothing, and \<^verbatim>\<open>param_name\<close> turns the
  class name from camel case to snake case: an underscore goes before every capital
  letter \<^verbatim>\<open>A\<close> to \<^verbatim>\<open>Z\<close> except at the start of the name, then the name is put in
  lower case. \<^verbatim>\<open>str.lower\<close> belongs to the interpreter and follows the Unicode tables:
  it is the parameter \<open>lower\<close>. On ASCII text it is \<open>ascii_lower\<close>.
\<close>

definition global_object_setup ::
  "('v, 'z) global_object_scheme \<Rightarrow> exn option \<times> ('v, 'z) global_object_scheme" where
  "global_object_setup self = (None, self)"

definition global_object_teardown ::
  "('v, 'z) global_object_scheme \<Rightarrow> exn option \<times> ('v, 'z) global_object_scheme" where
  "global_object_teardown self = (None, self)"

definition is_capital :: "char \<Rightarrow> bool" where
  "is_capital c \<longleftrightarrow> 65 \<le> (of_char c :: nat) \<and> (of_char c :: nat) \<le> 90"

definition lower_char :: "char \<Rightarrow> char" where
  "lower_char c = (if is_capital c then char_of ((of_char c :: nat) + 32) else c)"

definition ascii_lower :: "string \<Rightarrow> string" where
  "ascii_lower s = map lower_char s"

fun underscore_capitals :: "string \<Rightarrow> string" where
  "underscore_capitals [] = []"
| "underscore_capitals (c # cs) =
     (if is_capital c then CHR ''_'' # c # underscore_capitals cs
      else c # underscore_capitals cs)"

definition param_name :: "(string \<Rightarrow> string) \<Rightarrow> string \<Rightarrow> string option" where
  "param_name lower name =
     Some (lower (case name of [] \<Rightarrow> [] | c # cs \<Rightarrow> c # underscore_capitals cs))"

section \<open>The dependency graph\<close>

text \<open>
  The \<^verbatim>\<open>networkx.DiGraph\<close> of the manager: nodes and edges, each kept in insertion
  order without duplicates. \<^verbatim>\<open>add_edge\<close> adds its end points as nodes when they are
  missing.
\<close>

record 'c digraph =
  nodes :: "'c list"
  edges :: "('c \<times> 'c) list"

definition empty_graph :: "'c digraph" where
  "empty_graph = \<lparr>nodes = [], edges = []\<rparr>"

definition add_node :: "'c \<Rightarrow> 'c digraph \<Rightarrow> 'c digraph" where
  "add_node c g = (if c \<in> set (nodes g) then g else g\<lparr>nodes := nodes g @ [c]\<rparr>)"

definition add_edge :: "'c \<Rightarrow> 'c \<Rightarrow> 'c digraph \<Rightarrow> 'c digraph" where
  "add_edge u v g =
     (let g1 = add_node v (add_node u g)
      in if (u, v) \<in> set (edges g1) then g1 else g1\<lparr>edges := edges g1 @ [(u, v)]\<rparr>)"

text \<open>
  \<^verbatim>\<open>networkx.is_directed_acyclic_graph\<close> is library code; it is taken by its
  documentation: true exactly when the directed graph has no cycle.
\<close>

definition is_directed_acyclic_graph :: "'c digraph \<Rightarrow> bool" where
  "is_directed_acyclic_graph g = acyclic (set (edges g))"

section \<open>The manager\<close>

text \<open>
  The calls the manager makes into the registered classes, in the order it makes them.
  An event is recorded when the call is made, whether it returns or raises. The cache
  shows how a constructor or a \<^verbatim>\<open>teardown\<close> ended (a constructor that raised stores no
  instance, a \<^verbatim>\<open>teardown\<close> that raised leaves the instance stored), but not how a
  \<^verbatim>\<open>setup\<close> ended: \<open>SetupRaised\<close> is recorded after the \<open>Setup\<close> of a call that raised.
\<close>

datatype 'c event = Construct 'c | Setup 'c | SetupRaised 'c | Teardown 'c

text \<open>
  The three fields of \<^verbatim>\<open>GlobalObjectManager\<close>, and the history of calls made so far.
  In \<open>instances\<close>, \<open>None\<close> is a key that is missing and \<open>Some None\<close> a key whose
  value is Python's \<^verbatim>\<open>None\<close>.
\<close>

record ('c, 'v, 'z) manager =
  instances :: "'c \<rightharpoonup> ('v, 'z) global_object_scheme option"
  dependencies :: "'c \<rightharpoonup> 'c list"
  dependency_graph :: "'c digraph"
  calls :: "'c event list"

definition new_manager :: "('c, 'v, 'z) manager" where
  "new_manager = \<lparr>instances = Map.empty, dependencies = Map.empty,
     dependency_graph = empty_graph, calls = []\<rparr>"

text \<open>
  \<^verbatim>\<open>register\<close>, that is the decorator it builds applied to the class \<open>c\<close>. The
  entries are written and the edges added first, the check comes last, and nothing is
  undone when it raises. \<open>or_empty\<close> is \<^verbatim>\<open>dependencies or []\<close>.
\<close>

definition or_empty :: "'a list option \<Rightarrow> 'a list" where
  "or_empty xs = (case xs of None \<Rightarrow> [] | Some ys \<Rightarrow> ys)"

definition register ::
  "('c \<Rightarrow> ('v, 'z) class_def) \<Rightarrow> 'c \<Rightarrow> 'c list option \<Rightarrow> ('c, 'v, 'z) manager
     \<Rightarrow> (exn + 'c) \<times> ('c, 'v, 'z) manager" where
  "register K c deps_arg m =
     (let deps = or_empty deps_arg;
          g = foldl (\<lambda>g dep. add_edge dep c g) (add_node c (dependency_graph m)) deps;
          m' = m\<lparr>instances := (instances m)(c \<mapsto> None),
                 dependencies := (dependencies m)(c \<mapsto> deps),
                 dependency_graph := g\<rparr>
      in if \<not> is_directed_acyclic_graph g
         then (Inl (ValueError (''Circular dependency detected when registering '' @ cls_name (K c))), m')
         else (Inr c, m'))"

text \<open>
  \<^verbatim>\<open>except TypeError as t: raise RuntimeError(...) from t\<close>: a \<^verbatim>\<open>TypeError\<close> is
  wrapped, every other exception passes.
\<close>

definition wrap_type_error :: "string \<Rightarrow> exn \<Rightarrow> exn" where
  "wrap_type_error n e =
     (case e of TypeError t \<Rightarrow> RuntimeError (''Failed to instantiate '' @ n) (Some e) | _ \<Rightarrow> e)"

text \<open>
  \<^verbatim>\<open>_get_instance\<close> and its loop over the dependencies. The first argument after the
  class table is the call depth still available: Python raises \<^verbatim>\<open>RecursionError\<close>
  when the recursion goes deeper than the interpreter's limit, which happens when the
  stored dependency lists are cyclic.
\<close>

fun get_instance ::
  "('c \<Rightarrow> ('v, 'z) class_def) \<Rightarrow> nat \<Rightarrow> 'c \<Rightarrow> ('c, 'v, 'z) manager
     \<Rightarrow> (exn + ('v, 'z) global_object_scheme) \<times> ('c, 'v, 'z) manager"
and resolve_deps ::
  "('c \<Rightarrow> ('v, 'z) class_def) \<Rightarrow> nat \<Rightarrow> 'c list \<Rightarrow> (string \<rightharpoonup> ('v, 'z) global_object_scheme)
     \<Rightarrow> ('c, 'v, 'z) manager
     \<Rightarrow> (exn + (string \<rightharpoonup> ('v, 'z) global_object_scheme)) \<times> ('c, 'v, 'z) manager"
where
  "get_instance K 0 c m = (Inl RecursionError, m)"
| "get_instance K (Suc d) c m =
     (case instances m c of
        None \<Rightarrow> (Inl (RuntimeError (cls_name (K c) @ '' is not registered.'') None), m)
      | Some (Some obj) \<Rightarrow> (Inr obj, m)
      | Some None \<Rightarrow>
          (case dependencies m c of
             None \<Rightarrow> (Inl (KeyError (cls_name (K c))), m)
           | Some deps \<Rightarrow>
               (case resolve_deps K d deps Map.empty m of
                  (Inl e, m1) \<Rightarrow> (Inl e, m1)
                | (Inr dep_instances, m1) \<Rightarrow>
                    (case cls_init (K c) dep_instances of
                       Inl e \<Rightarrow>
                         (Inl (wrap_type_error (cls_name (K c)) e),
                          m1\<lparr>calls := calls m1 @ [Construct c]\<rparr>)
                     | Inr obj \<Rightarrow>
                         (case cls_setup (K c) obj of
                            (Some e, obj') \<Rightarrow>
                              (Inl (wrap_type_error (cls_name (K c)) e),
                               m1\<lparr>instances := (instances m1)(c \<mapsto> Some obj'),
                                  calls := calls m1 @ [Construct c, Setup c, SetupRaised c]\<rparr>)
                          | (None, obj') \<Rightarrow>
                              (Inr obj',
                               m1\<lparr>instances := (instances m1)(c \<mapsto> Some obj'),
                                  calls := calls m1 @ [Construct c, Setup c]\<rparr>))))))"
| "resolve_deps K d [] acc m = (Inr acc, m)"
| "resolve_deps K d (dep # deps) acc m =
     (case get_instance K d dep m of
        (Inl e, m1) \<Rightarrow> (Inl e, m1)
      | (Inr dep_instance, m1) \<Rightarrow>
          resolve_deps K d deps
            (case cls_param_name (K dep) of
               None \<Rightarrow> acc
             | Some name \<Rightarrow> acc(name \<mapsto> dep_instance))
            m1)"

text \<open>
  \<^verbatim>\<open>get\<close>: the instance itself, or what its \<^verbatim>\<open>get_fn\<close> returns when it has one.
\<close>

datatype ('v, 'z) resolved = Object "('v, 'z) global_object_scheme" | Indirect 'v

definition deliver :: "('v, 'z) global_object_scheme \<Rightarrow> ('v, 'z) resolved" where
  "deliver obj = (case get_fn obj of Some f \<Rightarrow> Indirect (f ()) | None \<Rightarrow> Object obj)"

definition get ::
  "('c \<Rightarrow> ('v, 'z) class_def) \<Rightarrow> nat \<Rightarrow> 'c \<Rightarrow> ('c, 'v, 'z) manager
     \<Rightarrow> (exn + ('v, 'z) resolved) \<times> ('c, 'v, 'z) manager" where
  "get K d c m =
     (case get_instance K d c m of
        (Inl e, m1) \<Rightarrow> (Inl e, m1)
      | (Inr obj, m1) \<Rightarrow> (Inr (deliver obj), m1))"

text \<open>
  \<^verbatim>\<open>networkx.topological_sort\<close> is library code and a generator. The operations
  below take it as the parameter \<open>tsort\<close>: the nodes it yields, in order, and whether
  it ends by raising \<^verbatim>\<open>NetworkXUnfeasible\<close> (it does on a graph with a cycle, after
  the nodes it could order). Its documented contract is \<open>topological_order\<close>.
\<close>

type_synonym 'c tsort = "'c digraph \<Rightarrow> 'c list \<times> bool"

definition topological_order :: "'c digraph \<Rightarrow> 'c list \<times> bool \<Rightarrow> bool" where
  "topological_order g r =
     (case r of (order, unfeasible) \<Rightarrow>
        distinct order \<and> set order \<subseteq> set (nodes g) \<and>
        (unfeasible \<longleftrightarrow> \<not> is_directed_acyclic_graph g) \<and>
        (\<not> unfeasible \<longrightarrow> set order = set (nodes g)) \<and>
        (\<forall>(u, v) \<in> set (edges g). v \<in> set order \<longrightarrow>
           u \<in> set (takeWhile (\<lambda>x. x \<noteq> v) order)))"

text \<open>
  \<^verbatim>\<open>startup\<close>: the loop takes the nodes as the generator yields them, so the nodes
  before a cycle are resolved before the generator raises.
\<close>

fun startup_loop ::
  "('c \<Rightarrow> ('v, 'z) class_def) \<Rightarrow> nat \<Rightarrow> 'c list \<Rightarrow> ('c, 'v, 'z) manager
     \<Rightarrow> exn option \<times> ('c, 'v, 'z) manager" where
  "startup_loop K d [] m = (None, m)"
| "startup_loop K d (c # cs) m =
     (case get_instance K d c m of
        (Inl e, m1) \<Rightarrow> (Some e, m1)
      | (Inr obj, m1) \<Rightarrow> startup_loop K d cs m1)"

definition startup ::
  "('c \<Rightarrow> ('v, 'z) class_def) \<Rightarrow> nat \<Rightarrow> 'c tsort \<Rightarrow> ('c, 'v, 'z) manager
     \<Rightarrow> exn option \<times> ('c, 'v, 'z) manager" where
  "startup K d tsort m =
     (case tsort (dependency_graph m) of (order, unfeasible) \<Rightarrow>
        (case startup_loop K d order m of
           (Some e, m1) \<Rightarrow> (Some e, m1)
         | (None, m1) \<Rightarrow> (if unfeasible then (Some NetworkXUnfeasible, m1) else (None, m1))))"

text \<open>
  \<^verbatim>\<open>shutdown\<close>: \<^verbatim>\<open>list(...)\<close> runs the generator to its end first, so a cyclic graph
  raises before any teardown. \<^verbatim>\<open>self._instances[cls]\<close> raises \<^verbatim>\<open>KeyError\<close> for a
  node that was never registered.
\<close>

fun shutdown_loop ::
  "('c \<Rightarrow> ('v, 'z) class_def) \<Rightarrow> 'c list \<Rightarrow> ('c, 'v, 'z) manager
     \<Rightarrow> exn option \<times> ('c, 'v, 'z) manager" where
  "shutdown_loop K [] m = (None, m)"
| "shutdown_loop K (c # cs) m =
     (case instances m c of
        None \<Rightarrow> (Some (KeyError (cls_name (K c))), m)
      | Some None \<Rightarrow> shutdown_loop K cs m
      | Some (Some obj) \<Rightarrow>
          (case cls_teardown (K c) obj of
             (Some e, obj') \<Rightarrow>
               (Some e, m\<lparr>instances := (instances m)(c \<mapsto> Some obj'),
                          calls := calls m @ [Teardown c]\<rparr>)
           | (None, obj') \<Rightarrow>
               shutdown_loop K cs
                 (m\<lparr>instances := (instances m)(c \<mapsto> None),
                    calls := calls m @ [Teardown c]\<rparr>)))"

definition shutdown ::
  "('c \<Rightarrow> ('v, 'z) class_def) \<Rightarrow> 'c tsort \<Rightarrow> ('c, 'v, 'z) manager
     \<Rightarrow> exn option \<times> ('c, 'v, 'z) manager" where
  "shutdown K tsort m =
     (case tsort (dependency_graph m) of (order, unfeasible) \<Rightarrow>
        if unfeasible then (Some NetworkXUnfeasible, m) else shutdown_loop K (rev order) m)"

text \<open>
  \<^verbatim>\<open>depends\<close>: the instance is fetched in the body of \<^verbatim>\<open>depends\<close>; the callable
  handed to \<^verbatim>\<open>Depends\<close> is \<^verbatim>\<open>instance.get_fn\<close> or \<^verbatim>\<open>lambda: instance\<close>.
\<close>

datatype ('v, 'z) injectable = Depends "unit \<Rightarrow> ('v, 'z) resolved"

definition depends ::
  "('c \<Rightarrow> ('v, 'z) class_def) \<Rightarrow> nat \<Rightarrow> 'c \<Rightarrow> ('c, 'v, 'z) manager
     \<Rightarrow> (exn + ('v, 'z) injectable) \<times> ('c, 'v, 'z) manager" where
  "depends K d c m =
     (case get_instance K d c m of
        (Inl e, m1) \<Rightarrow> (Inl e, m1)
      | (Inr obj, m1) \<Rightarrow>
          (case get_fn obj of
             Some f \<Rightarrow> (Inr (Depends (\<lambda>u. Indirect (f u))), m1)
           | None \<Rightarrow> (Inr (Depends (\<lambda>u. Object obj)), m1)))"

section \<open>The proxy variant\<close>

text \<open>Characters that the messages below contain.\<close>

definition apostrophe :: string where
  "apostrophe = [CHR 0x27]"

definition newline :: string where
  "newline = [CHR 0x0A]"

definition tab :: string where
  "tab = [CHR 0x09]"

text \<open>
  The object a proxy wraps is any Python object. What the proxy uses of it is
  \<^verbatim>\<open>getattr\<close> and subscription: it is modelled by its attributes (everything
  \<^verbatim>\<open>getattr\<close> finds on it: for a configuration object, the loaded settings and the
  object's own methods) and its items. On Python's \<^verbatim>\<open>None\<close> (the empty slot)
  \<^verbatim>\<open>getattr\<close> raises \<^verbatim>\<open>AttributeError\<close> and subscription raises \<^verbatim>\<open>TypeError\<close>. An
  \<^verbatim>\<open>AttributeError\<close> or \<^verbatim>\<open>KeyError\<close> carries the name that was looked up.
\<close>

record 'v py_object =
  attributes :: "string \<rightharpoonup> 'v"
  items :: "string \<rightharpoonup> 'v"

definition py_getattr :: "'v py_object option \<Rightarrow> string \<Rightarrow> exn + 'v" where
  "py_getattr obj item =
     (case obj of
        None \<Rightarrow> Inl (AttributeError item)
      | Some p \<Rightarrow> (case attributes p item of None \<Rightarrow> Inl (AttributeError item) | Some v \<Rightarrow> Inr v))"

definition py_getitem :: "'v py_object option \<Rightarrow> string \<Rightarrow> exn + 'v" where
  "py_getitem obj item =
     (case obj of
        None \<Rightarrow> Inl (TypeError (apostrophe @ ''NoneType'' @ apostrophe @ '' object is not subscriptable''))
      | Some p \<Rightarrow> (case items p item of None \<Rightarrow> Inl (KeyError item) | Some v \<Rightarrow> Inr v))"

text \<open>\<^verbatim>\<open>GlobalObjectProxy\<close>: a global object with the slot \<^verbatim>\<open>_instance\<close>.\<close>

record 'v global_object_proxy = "'v global_object" +
  proxy_instance :: "'v py_object option"

text \<open>
  \<^verbatim>\<open>GlobalObjectProxy.setup\<close>; the abstract \<^verbatim>\<open>_setup_proxy_impl\<close> of the subclass is
  the first argument.
\<close>

definition proxy_setup ::
  "(('v, 'z) global_object_proxy_scheme \<Rightarrow> exn option \<times> ('v, 'z) global_object_proxy_scheme)
     \<Rightarrow> ('v, 'z) global_object_proxy_scheme
     \<Rightarrow> exn option \<times> ('v, 'z) global_object_proxy_scheme" where
  "proxy_setup setup_proxy_impl self =
     (case setup_proxy_impl self of
        (Some e, self') \<Rightarrow> (Some e, self')
      | (None, self') \<Rightarrow>
          (if proxy_instance self' = None
           then (Some (RuntimeError
                   ''The `_instance` attribute must be set in the `_setup_proxy_impl` method.'' None),
                 self')
           else (None, self')))"

text \<open>
  \<^verbatim>\<open>GlobalObjectProxy.__getattr__\<close> and \<^verbatim>\<open>GlobalObjectProxy.__getitem__\<close>. Python
  calls \<^verbatim>\<open>__getattr__\<close> only for a name that ordinary attribute lookup does not find
  on the object, and \<^verbatim>\<open>__getitem__\<close> for every subscription.
\<close>

definition proxy_getattr :: "('v, 'z) global_object_proxy_scheme \<Rightarrow> string \<Rightarrow> exn + 'v" where
  "proxy_getattr self item = py_getattr (proxy_instance self) item"

definition proxy_getitem :: "('v, 'z) global_object_proxy_scheme \<Rightarrow> string \<Rightarrow> exn + 'v" where
  "proxy_getitem self item = py_getitem (proxy_instance self) item"

section \<open>Application settings\<close>

text \<open>
  \<^verbatim>\<open>AppSettings\<close>: a proxy whose wrapped object is the loaded configuration, with
  the fields \<^verbatim>\<open>prefix\<close> and \<^verbatim>\<open>settings_files\<close>.
\<close>

record 'v app_settings = "'v global_object_proxy" +
  prefix :: string
  settings_files :: "string list"

text \<open>
  \<^verbatim>\<open>str.upper\<close> belongs to the interpreter and follows the Unicode tables: the
  definitions that call it take it as the parameter \<open>upper\<close>. On ASCII text it is
  \<open>ascii_upper\<close>. \<open>join\<close> is \<^verbatim>\<open>sep.join(xs)\<close>.
\<close>

definition upper_char :: "char \<Rightarrow> char" where
  "upper_char c =
     (let n = (of_char c :: nat) in if 97 \<le> n \<and> n \<le> 122 then char_of (n - 32) else c)"

definition ascii_upper :: "string \<Rightarrow> string" where
  "ascii_upper s = map upper_char s"

fun join :: "string \<Rightarrow> string list \<Rightarrow> string" where
  "join sep [] = []"
| "join sep [x] = x"
| "join sep (x # y # ys) = x @ sep @ join sep (y # ys)"

text \<open>
  \<^verbatim>\<open>AppSettings.__init__\<close>; \<open>app_name\<close> is the environment variable \<^verbatim>\<open>APP_NAME\<close>,
  \<open>None\<close> when it is not set.
\<close>

definition app_settings_init ::
  "(string \<Rightarrow> string) \<Rightarrow> string option \<Rightarrow> string list \<Rightarrow> 'v app_settings" where
  "app_settings_init upper app_name files =
     \<lparr>get_fn = None, proxy_instance = None,
      prefix = upper (case app_name of None \<Rightarrow> ''app'' | Some n \<Rightarrow> n),
      settings_files = files\<rparr>"

definition generate_error_message ::
  "(string \<Rightarrow> string) \<Rightarrow> ('v, 'z) app_settings_scheme \<Rightarrow> string \<Rightarrow> string" where
  "generate_error_message upper self key =
     ''Setting '' @ apostrophe @ key @ apostrophe @ '' not found in configuration.'' @ newline @
     ''Please check the following:'' @ newline @
     ''1. The setting is defined in one of these files: '' @ join '', '' (settings_files self) @ newline @
     tab @ ''Example: '' @ key @ '' = '' @ apostrophe @ ''value'' @ apostrophe @ newline @
     ''2. If it'' @ apostrophe @ ''s an environment variable, ensure it'' @ apostrophe @
       ''s prefixed with '' @ apostrophe @ prefix self @ ''_'' @ apostrophe @ newline @
     tab @ ''Example: export '' @ upper (prefix self) @ ''_'' @ upper key @ ''='' @
       apostrophe @ ''value'' @ apostrophe @ newline @
     ''3. Check for typos in the setting name'' @ newline @
     ''If the setting is optional, consider using the .get() method with a default value.''"

text \<open>
  \<^verbatim>\<open>AppSettings.__getattr__\<close> and \<^verbatim>\<open>AppSettings.__getitem__\<close>: the proxy's method,
  with \<^verbatim>\<open>AttributeError\<close> (respectively \<^verbatim>\<open>KeyError\<close>) replaced by a
  \<^verbatim>\<open>ConfigurationError\<close> that has no cause (\<^verbatim>\<open>from None\<close>).
\<close>

definition app_settings_getattr ::
  "(string \<Rightarrow> string) \<Rightarrow> ('v, 'z) app_settings_scheme \<Rightarrow> string \<Rightarrow> exn + 'v" where
  "app_settings_getattr upper self name =
     (case proxy_getattr self name of
        Inl (AttributeError a) \<Rightarrow> Inl (ConfigurationError (generate_error_message upper self name))
      | r \<Rightarrow> r)"

definition app_settings_getitem ::
  "(string \<Rightarrow> string) \<Rightarrow> ('v, 'z) app_settings_scheme \<Rightarrow> string \<Rightarrow> exn + 'v" where
  "app_settings_getitem upper self item =
     (case proxy_getitem self item of
        Inl (KeyError k) \<Rightarrow> Inl (ConfigurationError (generate_error_message upper self item))
      | r \<Rightarrow> r)"

text \<open>
  Attribute-style access \<^verbatim>\<open>settings.name\<close>. Ordinary lookup comes first and finds
  what the object itself has: the fields that the three \<^verbatim>\<open>__init__\<close> methods assign
  (\<^verbatim>\<open>get_fn\<close>, \<^verbatim>\<open>_instance\<close>, \<^verbatim>\<open>prefix\<close>, \<^verbatim>\<open>settings_files\<close>), the methods that the
  three classes define, and the names that the interpreter and the base class
  \<^verbatim>\<open>ABC\<close> give the object (such as \<^verbatim>\<open>__class__\<close>), which are the parameter
  \<open>builtin\<close>. Of a method or a name of the interpreter only the name is kept.
  \<^verbatim>\<open>__getattr__\<close> is called for every other name.
\<close>

datatype 'v attribute =
    Get_fn "(unit \<Rightarrow> 'v) option"
  | Slot "'v py_object option"
  | Prefix string
  | Settings_files "string list"
  | Defined string
  | Forwarded 'v

definition method_names :: "string list" where
  "method_names =
     [''setup'', ''teardown'', ''param_name'', ''_setup_proxy_impl'', ''_teardown_proxy_impl'',
      ''_generate_error_message'', ''__init__'', ''__getattr__'', ''__getitem__'']"

definition own_attribute ::
  "(string \<Rightarrow> bool) \<Rightarrow> ('v, 'z) app_settings_scheme \<Rightarrow> string \<Rightarrow> 'v attribute option" where
  "own_attribute builtin self name =
     (if name = ''get_fn'' then Some (Get_fn (get_fn self))
      else if name = ''_instance'' then Some (Slot (proxy_instance self))
      else if name = ''prefix'' then Some (Prefix (prefix self))
      else if name = ''settings_files'' then Some (Settings_files (settings_files self))
      else if name \<in> set method_names \<or> builtin name then Some (Defined name)
      else None)"

definition app_settings_attribute ::
  "(string \<Rightarrow> bool) \<Rightarrow> (string \<Rightarrow> string) \<Rightarrow> ('v, 'z) app_settings_scheme \<Rightarrow> string
     \<Rightarrow> exn + 'v attribute" where
  "app_settings_attribute builtin upper self name =
     (case own_attribute builtin self name of
        Some a \<Rightarrow> Inr a
      | None \<Rightarrow>
          (case app_settings_getattr upper self name of
             Inl e \<Rightarrow> Inl e
           | Inr v \<Rightarrow> Inr (Forwarded v)))"

text \<open>
  Modelled from the spec: \<^verbatim>\<open>get(key, default)\<close> of the settings object. No source file
  defines it: \<^verbatim>\<open>AppSettings\<close> has no method \<^verbatim>\<open>get\<close>, so the call reaches the wrapped
  configuration object of the Dynaconf library through \<^verbatim>\<open>__getattr__\<close>. Following the
  spec ("exposes get(key, default)"), it returns the stored value of the key, or the
  default when the key is absent; on an empty slot the lookup of \<^verbatim>\<open>get\<close> itself fails
  as any other attribute does.
\<close>

definition app_settings_get ::
  "(string \<Rightarrow> string) \<Rightarrow> ('v, 'z) app_settings_scheme \<Rightarrow> string \<Rightarrow> 'v \<Rightarrow> exn + 'v" where
  "app_settings_get upper self key dflt =
     (case proxy_instance self of
        None \<Rightarrow> Inl (ConfigurationError (generate_error_message upper self ''get''))
      | Some cfg \<Rightarrow> Inr (case items cfg key of None \<Rightarrow> dflt | Some v \<Rightarrow> v))"
section \<open>Concrete classes and objects\<close>

text \<open>A configuration object with one setting, and proxies around it.\<close>

definition demo_config :: "nat py_object" where
  "demo_config = \<lparr>attributes = [''debug'' \<mapsto> 1], items = [''debug'' \<mapsto> 1]\<rparr>"

definition empty_proxy :: "nat global_object_proxy" where
  "empty_proxy = \<lparr>get_fn = None, proxy_instance = None\<rparr>"

definition filled_proxy :: "nat global_object_proxy" where
  "filled_proxy = \<lparr>get_fn = None, proxy_instance = Some demo_config\<rparr>"

definition forgetful_impl :: "nat global_object_proxy \<Rightarrow> exn option \<times> nat global_object_proxy" where
  "forgetful_impl self = (None, self)"

definition filling_impl :: "nat global_object_proxy \<Rightarrow> exn option \<times> nat global_object_proxy" where
  "filling_impl self = (None, self\<lparr>proxy_instance := Some demo_config\<rparr>)"

text \<open>
  The settings object built with the default arguments when \<^verbatim>\<open>APP_NAME\<close> is not set,
  after \<^verbatim>\<open>setup\<close> has loaded the configuration above. In the examples the names that
  the interpreter gives every object are taken to be those written with two
  underscores at both ends.
\<close>

definition demo_settings :: "nat app_settings" where
  "demo_settings =
     (app_settings_init ascii_upper None [''../settings.toml'', ''../.secrets.toml''])
       \<lparr>proxy_instance := Some demo_config\<rparr>"

definition dunder :: "string \<Rightarrow> bool" where
  "dunder name \<longleftrightarrow> take 2 name = ''__'' \<and> take 2 (rev name) = ''__''"

text \<open>
  Classes for the manager, told apart by name: \<open>Flaky\<close> has a constructor that raises
  an exception that is no \<^verbatim>\<open>TypeError\<close>, \<open>Mismatch\<close> one that raises a \<^verbatim>\<open>TypeError\<close>,
  \<open>BadSetup\<close> a \<^verbatim>\<open>setup\<close> that raises, \<open>Indirect\<close> passes a \<^verbatim>\<open>get_fn\<close> to
  \<^verbatim>\<open>GlobalObject.__init__\<close>. Every other class is plain, and all of them inherit
  \<^verbatim>\<open>param_name\<close> and \<^verbatim>\<open>teardown\<close>.
\<close>

definition plain_object :: "nat global_object" where
  "plain_object = \<lparr>get_fn = None\<rparr>"

definition indirect_object :: "nat global_object" where
  "indirect_object = \<lparr>get_fn = Some (\<lambda>u. 7)\<rparr>"

definition demo_classes :: "string \<Rightarrow> (nat, unit) class_def" where
  "demo_classes n =
     \<lparr>cls_name = n,
      cls_param_name = param_name ascii_lower n,
      cls_init = (\<lambda>kw.
        if n = ''Flaky'' then Inl (OtherError ''boom'')
        else if n = ''Mismatch'' then Inl (TypeError ''unexpected keyword argument'')
        else if n = ''Indirect'' then Inr indirect_object
        else Inr plain_object),
      cls_setup = (\<lambda>self.
        if n = ''BadSetup'' then (Some (OtherError ''setup failed''), self)
        else global_object_setup self),
      cls_teardown = global_object_teardown\<rparr>"

definition registered_alone :: "string \<Rightarrow> (string, nat, unit) manager" where
  "registered_alone c = snd (register demo_classes c None new_manager)"

text \<open>
  Managers after a few registrations: \<open>A\<close> registered as depending on \<open>B\<close>;
  \<open>A\<close> and then \<open>B\<close> depending on \<open>A\<close>; \<open>A\<close> registered and built.
\<close>

definition a_needs_b :: "(string, nat, unit) manager" where
  "a_needs_b = snd (register demo_classes ''A'' (Some [''B'']) new_manager)"

definition b_needs_a :: "(string, nat, unit) manager" where
  "b_needs_a = snd (register demo_classes ''B'' (Some [''A'']) (registered_alone ''A''))"

definition a_built :: "(string, nat, unit) manager" where
  "a_built = snd (get demo_classes (Suc 0) ''A'' (registered_alone ''A''))"

text \<open>
  Results of \<^verbatim>\<open>networkx.topological_sort\<close> on the graphs used below, and the manager
  in which \<open>Indirect\<close> is built.
\<close>

definition ab_sort :: "string tsort" where
  "ab_sort g = ([''A'', ''B''], False)"

definition ba_sort :: "string tsort" where
  "ba_sort g = ([''B'', ''A''], False)"

definition abc_sort :: "string tsort" where
  "abc_sort g = ([''A'', ''B'', ''C''], False)"

definition indirect_built :: "(string, nat, unit) manager" where
  "indirect_built = snd (get demo_classes (Suc 0) ''Indirect'' (registered_alone ''Indirect''))"


text \<open>
  Two classes that do not depend on each other, and a chain: \<open>B\<close> depends on \<open>A\<close>,
  \<open>C\<close> on \<open>B\<close>.
\<close>

definition pair_manager :: "(string, nat, unit) manager" where
  "pair_manager = snd (register demo_classes ''B'' None (registered_alone ''A''))"

definition chain_manager :: "(string, nat, unit) manager" where
  "chain_manager = snd (register demo_classes ''C'' (Some [''B'']) b_needs_a)"


text \<open>
  The chain after a start-up; the two independent classes built by \<open>get\<close>, \<open>B\<close> first
  and \<open>A\<close> first.
\<close>

definition chain_started :: "(string, nat, unit) manager" where
  "chain_started = chain_manager
     \<lparr>instances := [''A'' \<mapsto> Some plain_object, ''B'' \<mapsto> Some plain_object,
                     ''C'' \<mapsto> Some plain_object],
      calls := [Construct ''A'', Setup ''A'', Construct ''B'', Setup ''B'',
                Construct ''C'', Setup ''C'']\<rparr>"

definition b_then_a :: "(string, nat, unit) manager" where
  "b_then_a =
     snd (get demo_classes (Suc 0) ''A'' (snd (get demo_classes (Suc 0) ''B'' pair_manager)))"

definition a_then_b :: "(string, nat, unit) manager" where
  "a_then_b =
     snd (get demo_classes (Suc 0) ''B'' (snd (get demo_classes (Suc 0) ''A'' pair_manager)))"





section \<open>Auxiliary notions\<close>

text \<open>
  What a resolution leaves alone: the dependency lists and the graph are unchanged, a
  class is registered after it exactly when it was before, a cache entry that holds an
  instance is not made absent, and calls are only added to the history.
\<close>

definition frame :: "('c, 'v, 'z) manager \<Rightarrow> ('c, 'v, 'z) manager \<Rightarrow> bool" where
  "frame m m' \<longleftrightarrow>
     dependencies m' = dependencies m \<and> dependency_graph m' = dependency_graph m \<and>
     (\<forall>c. instances m' c = None \<longleftrightarrow> instances m c = None) \<and>
     (\<forall>c. instances m' c = Some None \<longrightarrow> instances m c = Some None) \<and>
     (\<exists>evs. calls m' = calls m @ evs)"

text \<open>A set of classes still to build, each of which depends on a member of the set.\<close>

definition trap :: "'c set \<Rightarrow> ('c, 'v, 'z) manager \<Rightarrow> bool" where
  "trap C m \<longleftrightarrow>
     (\<forall>c\<in>C. instances m c = Some None \<and>
        (\<exists>ds y. dependencies m c = Some ds \<and> y \<in> set ds \<and> y \<in> C))"

text \<open>Dependency edges between classes that are both still to build.\<close>

definition pending_edges :: "('c, 'v, 'z) manager \<Rightarrow> ('c \<times> 'c) set" where
  "pending_edges m =
     {(a, b). instances m a = Some None \<and> instances m b = Some None \<and>
        (\<exists>ds. dependencies m a = Some ds \<and> b \<in> set ds)}"

text \<open>
  The call \<open>get c\<close> made in state \<open>m\<close> raises \<open>err\<close> and leaves \<open>m'\<close>, and so does
  every \<open>startup\<close> whose loop reaches \<open>c\<close> in state \<open>m\<close>.
\<close>

definition aborts_with ::
  "('c \<Rightarrow> ('v, 'z) class_def) \<Rightarrow> nat \<Rightarrow> 'c \<Rightarrow> ('c, 'v, 'z) manager \<Rightarrow> exn
     \<Rightarrow> ('c, 'v, 'z) manager \<Rightarrow> bool" where
  "aborts_with K d c m err m' \<longleftrightarrow>
     get K d c m = (Inl err, m') \<and>
     (\<forall>tsort m0 pre post u.
        tsort (dependency_graph m0) = (pre @ c # post, u) \<longrightarrow>
        startup_loop K d pre m0 = (None, m) \<longrightarrow>
        startup K d tsort m0 = (Some err, m'))"

text \<open>
  What \<open>register\<close> establishes and resolution keeps: a registered class has a
  dependency list and a node, and every listed dependency has its edge.
\<close>

definition well_formed :: "('c, 'v, 'z) manager \<Rightarrow> bool" where
  "well_formed m \<longleftrightarrow>
     (\<forall>c. instances m c \<noteq> None \<longrightarrow>
        c \<in> set (nodes (dependency_graph m)) \<and> dependencies m c \<noteq> None) \<and>
     (\<forall>c ds. dependencies m c = Some ds \<longrightarrow>
        (\<forall>a\<in>set ds. (a, c) \<in> set (edges (dependency_graph m))))"

text \<open>The cache holds an instance of \<open>c\<close>.\<close>

definition has_instance :: "('c, 'v, 'z) manager \<Rightarrow> 'c \<Rightarrow> bool" where
  "has_instance m c = (case instances m c of Some (Some obj) \<Rightarrow> True | _ \<Rightarrow> False)"

text \<open>
  Reading the history of calls. \<open>set_up a evs\<close>: \<open>a\<close> has been constructed, and
  since its last construction \<open>setup\<close> has been called on it and has not raised.
  \<open>built_before a b evs\<close>:
  \<open>b\<close> has been constructed, \<open>a\<close> has not been constructed since the last
  construction of \<open>b\<close>, and before that construction \<open>a\<close> was constructed and set up;
  that is, the instance of \<open>a\<close> now in use was constructed and set up before the
  instance of \<open>b\<close> now in use was constructed.
\<close>

definition set_up :: "'c \<Rightarrow> 'c event list \<Rightarrow> bool" where
  "set_up a evs \<longleftrightarrow>
     Construct a \<in> set evs \<and>
     Setup a \<in> set (takeWhile (\<lambda>e. e \<noteq> Construct a) (rev evs)) \<and>
     SetupRaised a \<notin> set (takeWhile (\<lambda>e. e \<noteq> Construct a) (rev evs))"

definition built_before :: "'c \<Rightarrow> 'c \<Rightarrow> 'c event list \<Rightarrow> bool" where
  "built_before a b evs \<longleftrightarrow>
     Construct b \<in> set evs \<and>
     Construct a \<notin> set (takeWhile (\<lambda>e. e \<noteq> Construct b) (rev evs)) \<and>
     set_up a (rev (tl (dropWhile (\<lambda>e. e \<noteq> Construct b) (rev evs))))"

text \<open>The classes constructed, and the classes torn down, in the order of the calls.\<close>

fun constructed :: "'c event list \<Rightarrow> 'c list" where
  "constructed [] = []"
| "constructed (Construct c # evs) = c # constructed evs"
| "constructed (e # evs) = constructed evs"

fun torn_down :: "'c event list \<Rightarrow> 'c list" where
  "torn_down [] = []"
| "torn_down (Teardown c # evs) = c # torn_down evs"
| "torn_down (e # evs) = torn_down evs"

text \<open>
  Every instance in the cache has been set up without raising, and the dependencies of
  its class have instances that were built before it.
\<close>

definition ordered_cache :: "('c, 'v, 'z) manager \<Rightarrow> bool" where
  "ordered_cache m \<longleftrightarrow>
     (\<forall>b. has_instance m b \<longrightarrow>
        set_up b (calls m) \<and>
        (\<forall>ds a. dependencies m b = Some ds \<longrightarrow> a \<in> set ds \<longrightarrow>
           has_instance m a \<and> built_before a b (calls m)))"

section \<open>The concrete classes, field by field\<close>

lemma demo_classes_simps:
  "cls_name (demo_classes n) = n"
  "cls_param_name (demo_classes n) = param_name ascii_lower n"
  "cls_init (demo_classes n) kw =
     (if n = ''Flaky'' then Inl (OtherError ''boom'')
      else if n = ''Mismatch'' then Inl (TypeError ''unexpected keyword argument'')
      else if n = ''Indirect'' then Inr indirect_object
      else Inr plain_object)"
  "cls_setup (demo_classes n) self =
     (if n = ''BadSetup'' then (Some (OtherError ''setup failed''), self) else (None, self))"
  "cls_teardown (demo_classes n) self = (None, self)"
  by (simp_all add: demo_classes_def global_object_setup_def global_object_teardown_def)

section \<open>How resolution changes the manager\<close>


lemma get_instance_SucE:
  assumes "get_instance K (Suc d) c m = (r, m')"
  obtains
    (unregistered) "instances m c = None" "m' = m"
      "r = Inl (RuntimeError (cls_name (K c) @ '' is not registered.'') None)"
  | (cached) obj where "instances m c = Some (Some obj)" "m' = m" "r = Inr obj"
  | (no_list) "instances m c = Some None" "dependencies m c = None" "m' = m"
      "r = Inl (KeyError (cls_name (K c)))"
  | (deps_failed) deps e where "instances m c = Some None" "dependencies m c = Some deps"
      "resolve_deps K d deps Map.empty m = (Inl e, m')" "r = Inl e"
  | (init_failed) deps kw m1 e where "instances m c = Some None" "dependencies m c = Some deps"
      "resolve_deps K d deps Map.empty m = (Inr kw, m1)" "cls_init (K c) kw = Inl e"
      "m' = m1\<lparr>calls := calls m1 @ [Construct c]\<rparr>" "r = Inl (wrap_type_error (cls_name (K c)) e)"
  | (setup_failed) deps kw m1 obj e obj' where "instances m c = Some None"
      "dependencies m c = Some deps" "resolve_deps K d deps Map.empty m = (Inr kw, m1)"
      "cls_init (K c) kw = Inr obj" "cls_setup (K c) obj = (Some e, obj')"
      "m' = m1\<lparr>instances := (instances m1)(c \<mapsto> Some obj'),
                calls := calls m1 @ [Construct c, Setup c, SetupRaised c]\<rparr>"
      "r = Inl (wrap_type_error (cls_name (K c)) e)"
  | (built) deps kw m1 obj obj' where "instances m c = Some None"
      "dependencies m c = Some deps" "resolve_deps K d deps Map.empty m = (Inr kw, m1)"
      "cls_init (K c) kw = Inr obj" "cls_setup (K c) obj = (None, obj')"
      "m' = m1\<lparr>instances := (instances m1)(c \<mapsto> Some obj'), calls := calls m1 @ [Construct c, Setup c]\<rparr>"
      "r = Inr obj'"
  using assms
  by (auto split: option.splits sum.splits prod.splits)

lemma resolve_deps_ConsE:
  assumes "resolve_deps K d (dep # deps) acc m = (r, m')"
  obtains
    (dep_failed) e where "get_instance K d dep m = (Inl e, m')" "r = Inl e"
  | (dep_ok) obj m1 where "get_instance K d dep m = (Inr obj, m1)"
      "resolve_deps K d deps (case cls_param_name (K dep) of None \<Rightarrow> acc | Some p \<Rightarrow> acc(p \<mapsto> obj)) m1 = (r, m')"
  using assms
  by (auto split: option.splits sum.splits prod.splits)


lemma frame_refl: "frame m m"
  by (simp add: frame_def)

lemma frame_trans: "frame m m1 \<Longrightarrow> frame m1 m2 \<Longrightarrow> frame m m2"
  unfolding frame_def by (elim conjE exE) simp

lemma frame_log: "frame m (m\<lparr>calls := calls m @ evs\<rparr>)"
  by (simp add: frame_def)

lemma frame_store:
  "instances m c \<noteq> None \<Longrightarrow>
   frame m (m\<lparr>instances := (instances m)(c \<mapsto> Some obj), calls := calls m @ evs\<rparr>)"
  by (auto simp: frame_def)

lemma frame_registered: "frame m m' \<Longrightarrow> instances m c = Some None \<Longrightarrow> instances m' c \<noteq> None"
  by (auto simp: frame_def)

lemma get_instance_frame:
  "get_instance K n c m = (r, m') \<Longrightarrow> frame m m'"
  "resolve_deps K n ds acc m = (r', m') \<Longrightarrow> frame m m'"
proof (induction K n c m and K n ds acc m arbitrary: r m' and r' m'
    rule: get_instance_resolve_deps.induct)
  case (1 K c m)
  then show ?case by (simp add: frame_refl)
next
  case (2 K d c m)
  from "2.prems" show ?case
  proof (cases rule: get_instance_SucE)
    case (deps_failed deps e)
    with "2.IH" show ?thesis by blast
  next
    case (init_failed deps kw m1 e)
    with "2.IH" have "frame m m1" by blast
    with init_failed show ?thesis by (blast intro: frame_trans frame_log)
  next
    case (setup_failed deps kw m1 obj e obj')
    with "2.IH" have f: "frame m m1" by blast
    with setup_failed have "instances m1 c \<noteq> None" by (blast dest: frame_registered)
    with f setup_failed show ?thesis by (blast intro: frame_trans frame_store)
  next
    case (built deps kw m1 obj obj')
    with "2.IH" have f: "frame m m1" by blast
    with built have "instances m1 c \<noteq> None" by (blast dest: frame_registered)
    with f built show ?thesis by (blast intro: frame_trans frame_store)
  qed (simp_all add: frame_refl)
next
  case (3 K d acc m)
  then show ?case by (simp add: frame_refl)
next
  case (4 K d dep deps acc m)
  from "4.prems" show ?case
  proof (cases rule: resolve_deps_ConsE)
    case (dep_failed e)
    with "4.IH"(1) show ?thesis by blast
  next
    case (dep_ok obj m1)
    with "4.IH"(1) have f: "frame m m1" by blast
    have "frame m1 m'"
      by (rule "4.IH"(2) [OF dep_ok(1) [symmetric] refl dep_ok(2)])
    with f show ?thesis by (rule frame_trans)
  qed
qed


lemma trap_frame:
  "trap C m \<Longrightarrow> frame m m' \<Longrightarrow> \<forall>c\<in>C. instances m' c = Some None \<Longrightarrow> trap C m'"
  by (simp add: trap_def frame_def)

lemma trap_log: "trap C m \<Longrightarrow> trap C (m\<lparr>calls := evs\<rparr>)"
  by (simp add: trap_def)

lemma trap_store:
  "trap C m \<Longrightarrow> c \<notin> C \<Longrightarrow> trap C (m\<lparr>instances := (instances m)(c \<mapsto> v), calls := evs\<rparr>)"
  by (auto simp: trap_def)

lemma trap_dep:
  assumes "trap C m" "c \<in> C" "dependencies m c = Some deps"
  shows "set deps \<inter> C \<noteq> {}"
proof -
  from assms(1,2) obtain ds y where "dependencies m c = Some ds" "y \<in> set ds" "y \<in> C"
    unfolding trap_def by blast
  with assms(3) show ?thesis by auto
qed

lemma trapped_never_built:
  "get_instance K n c m = (r, m') \<Longrightarrow> trap C m \<Longrightarrow> trap C m' \<and> (c \<in> C \<longrightarrow> (\<exists>e. r = Inl e))"
  "resolve_deps K n ds acc m = (r', m') \<Longrightarrow> trap C m \<Longrightarrow>
     trap C m' \<and> (set ds \<inter> C \<noteq> {} \<longrightarrow> (\<exists>e. r' = Inl e))"
proof (induction K n c m and K n ds acc m arbitrary: r m' and r' m'
    rule: get_instance_resolve_deps.induct)
  case (1 K c m)
  then show ?case by auto
next
  case (2 K d c m)
  from "2.prems"(1) show ?case
  proof (cases rule: get_instance_SucE)
    case unregistered
    with "2.prems"(2) show ?thesis by (auto simp: trap_def)
  next
    case (cached obj)
    with "2.prems"(2) show ?thesis by (auto simp: trap_def)
  next
    case no_list
    with "2.prems"(2) show ?thesis by auto
  next
    case (deps_failed deps e)
    with "2.IH" "2.prems"(2) show ?thesis by blast
  next
    case (init_failed deps kw m1 e)
    with "2.IH" "2.prems"(2) have "trap C m1" by blast
    with init_failed show ?thesis by (simp add: trap_log)
  next
    case (setup_failed deps kw m1 obj e obj')
    from setup_failed "2.IH" "2.prems"(2)
    have t: "trap C m1" and nf: "set deps \<inter> C \<noteq> {} \<longrightarrow> (\<exists>e. (Inr kw :: exn + _) = Inl e)"
      by blast+
    have "c \<notin> C"
    proof
      assume "c \<in> C"
      with "2.prems"(2) setup_failed(2) have "set deps \<inter> C \<noteq> {}" by (blast dest: trap_dep)
      with nf show False by simp
    qed
    with t setup_failed show ?thesis by (simp add: trap_store)
  next
    case (built deps kw m1 obj obj')
    from built "2.IH" "2.prems"(2)
    have t: "trap C m1" and nf: "set deps \<inter> C \<noteq> {} \<longrightarrow> (\<exists>e. (Inr kw :: exn + _) = Inl e)"
      by blast+
    have "c \<notin> C"
    proof
      assume "c \<in> C"
      with "2.prems"(2) built(2) have "set deps \<inter> C \<noteq> {}" by (blast dest: trap_dep)
      with nf show False by simp
    qed
    with t built show ?thesis by (simp add: trap_store)
  qed
next
  case (3 K d acc m)
  then show ?case by simp
next
  case (4 K d dep deps acc m)
  from "4.prems"(1) show ?case
  proof (cases rule: resolve_deps_ConsE)
    case (dep_failed e)
    with "4.IH"(1) "4.prems"(2) show ?thesis by blast
  next
    case (dep_ok obj m1)
    from "4.IH"(1) [OF dep_ok(1) "4.prems"(2)]
    have t: "trap C m1" and n: "dep \<notin> C" by auto
    from "4.IH"(2) [OF dep_ok(1) [symmetric] refl dep_ok(2) t] n
    show ?thesis by auto
  qed
qed


lemma pending_edges_mono: "frame m m1 \<Longrightarrow> pending_edges m1 \<subseteq> pending_edges m"
  by (auto simp: pending_edges_def frame_def)

lemma frame_pending: "frame m m1 \<Longrightarrow> instances m1 c = Some None \<Longrightarrow> instances m c = Some None"
  by (simp add: frame_def)

lemma changed_is_reachable:
  "get_instance K n x m = (r, m') \<Longrightarrow> instances m' c \<noteq> instances m c \<Longrightarrow>
     instances m x = Some None \<and> (x, c) \<in> (pending_edges m)\<^sup>*"
  "resolve_deps K n ds acc m = (r', m') \<Longrightarrow> instances m' c \<noteq> instances m c \<Longrightarrow>
     \<exists>y\<in>set ds. instances m y = Some None \<and> (y, c) \<in> (pending_edges m)\<^sup>*"
proof (induction K n x m and K n ds acc m arbitrary: r m' and r' m'
    rule: get_instance_resolve_deps.induct)
  case (1 K x m)
  then show ?case by simp
next
  case (2 K d x m)
  have step: "instances m x = Some None \<and> (x, c) \<in> (pending_edges m)\<^sup>*"
    if u: "instances m x = Some None" and dl: "dependencies m x = Some deps"
      and rd: "resolve_deps K d deps Map.empty m = (r1, m1)"
      and ch: "c \<noteq> x \<longrightarrow> instances m1 c \<noteq> instances m c" for deps r1 m1
  proof (cases "c = x")
    case True
    with u show ?thesis by simp
  next
    case False
    with ch have "instances m1 c \<noteq> instances m c" by simp
    from "2.IH" [OF u refl dl rd this]
    obtain y where y: "y \<in> set deps" "instances m y = Some None" "(y, c) \<in> (pending_edges m)\<^sup>*"
      by blast
    from u dl y(1,2) have "(x, y) \<in> pending_edges m"
      by (auto simp: pending_edges_def)
    with y(3) u show ?thesis by (blast intro: converse_rtrancl_into_rtrancl)
  qed
  from "2.prems"(1) show ?case
  proof (cases rule: get_instance_SucE)
    case (deps_failed deps e)
    with "2.prems"(2) step show ?thesis by blast
  next
    case (init_failed deps kw m1 e)
    with "2.prems"(2) step [OF init_failed(1,2,3)] show ?thesis by simp
  next
    case (setup_failed deps kw m1 obj e obj')
    with "2.prems"(2) step [OF setup_failed(1,2,3)] show ?thesis by (simp split: if_splits)
  next
    case (built deps kw m1 obj obj')
    with "2.prems"(2) step [OF built(1,2,3)] show ?thesis by (simp split: if_splits)
  qed (use "2.prems"(2) in simp_all)
next
  case (3 K d acc m)
  then show ?case by simp
next
  case (4 K d dep deps acc m)
  from "4.prems"(1) show ?case
  proof (cases rule: resolve_deps_ConsE)
    case (dep_failed e)
    from "4.IH"(1) [OF dep_failed(1) "4.prems"(2)] show ?thesis by simp
  next
    case (dep_ok obj m1)
    show ?thesis
    proof (cases "instances m1 c = instances m c")
      case False
      from "4.IH"(1) [OF dep_ok(1) False] show ?thesis by simp
    next
      case True
      with "4.prems"(2) have "instances m' c \<noteq> instances m1 c" by simp
      from "4.IH"(2) [OF dep_ok(1) [symmetric] refl dep_ok(2) this]
      obtain y where y: "y \<in> set deps" "instances m1 y = Some None"
        "(y, c) \<in> (pending_edges m1)\<^sup>*" by blast
      from dep_ok(1) have f: "frame m m1" by (rule get_instance_frame)
      from y(3) pending_edges_mono [OF f] have "(y, c) \<in> (pending_edges m)\<^sup>*"
        by (blast intro: rtrancl_mono [THEN subsetD])
      with y(1,2) f show ?thesis by (auto dest: frame_pending)
    qed
  qed
qed

text \<open>While the dependencies of a class are resolved, the class itself is not built.\<close>

lemma resolving_keeps_pending:
  assumes u: "instances m c = Some None" and dl: "dependencies m c = Some deps"
    and rd: "resolve_deps K d deps acc m = (Inr kw, m1)"
  shows "instances m1 c = Some None"
proof (rule ccontr)
  assume "instances m1 c \<noteq> Some None"
  with u have "instances m1 c \<noteq> instances m c" by simp
  from changed_is_reachable(2) [OF rd this]
  obtain y where y: "y \<in> set deps" "instances m y = Some None" "(y, c) \<in> (pending_edges m)\<^sup>*"
    by blast
  from u dl y(1,2) have cy: "(c, y) \<in> pending_edges m"
    by (auto simp: pending_edges_def)
  define C where "C = {v. (v, v) \<in> (pending_edges m)\<^sup>+}"
  have "trap C m"
    unfolding trap_def
  proof
    fix v assume "v \<in> C"
    then have "(v, v) \<in> (pending_edges m)\<^sup>+" by (simp add: C_def)
    then obtain w where w: "(v, w) \<in> pending_edges m" "(w, v) \<in> (pending_edges m)\<^sup>*"
      by (blast dest: tranclD)
    then have "(w, w) \<in> (pending_edges m)\<^sup>+" by (blast intro: rtrancl_into_trancl1)
    with w(1) show "instances m v = Some None \<and>
        (\<exists>ds y. dependencies m v = Some ds \<and> y \<in> set ds \<and> y \<in> C)"
      by (auto simp: pending_edges_def C_def)
  qed
  moreover from cy y(3) have "(y, y) \<in> (pending_edges m)\<^sup>+"
    by (blast intro: rtrancl_into_trancl1)
  with y(1) have "set deps \<inter> C \<noteq> {}" by (auto simp: C_def)
  ultimately show False using trapped_never_built(2) [OF rd] by blast
qed

lemma resolved_is_cached:
  assumes "get_instance K n c m = (Inr obj, m')"
  shows "instances m' c = Some (Some obj)"
proof (cases n)
  case 0
  with assms show ?thesis by simp
next
  case (Suc d)
  with assms have "get_instance K (Suc d) c m = (Inr obj, m')" by simp
  then show ?thesis by (cases rule: get_instance_SucE) simp_all
qed

lemma cached_is_returned:
  "instances m c = Some (Some obj) \<Longrightarrow> get_instance K (Suc d) c m = (Inr obj, m)"
  by simp

lemma cached_is_kept:
  "get_instance K n c m = (r, m') \<Longrightarrow> instances m x = Some (Some obj) \<Longrightarrow>
     instances m' x = Some (Some obj)"
  "resolve_deps K n ds acc m = (r', m') \<Longrightarrow> instances m x = Some (Some obj) \<Longrightarrow>
     instances m' x = Some (Some obj)"
proof (induction K n c m and K n ds acc m arbitrary: r m' and r' m'
    rule: get_instance_resolve_deps.induct)
  case (1 K c m)
  then show ?case by simp
next
  case (2 K d c m)
  from "2.prems"(1) show ?case
  proof (cases rule: get_instance_SucE)
    case (deps_failed deps e)
    with "2.IH" "2.prems"(2) show ?thesis by blast
  next
    case (init_failed deps kw m1 e)
    with "2.IH" "2.prems"(2) show ?thesis by simp
  next
    case (setup_failed deps kw m1 obj0 e obj')
    from setup_failed(1,2,3) have "instances m1 c = Some None"
      by (rule resolving_keeps_pending)
    moreover from setup_failed "2.IH" "2.prems"(2) have "instances m1 x = Some (Some obj)"
      by blast
    ultimately show ?thesis using setup_failed by auto
  next
    case (built deps kw m1 obj0 obj')
    from built(1,2,3) have "instances m1 c = Some None"
      by (rule resolving_keeps_pending)
    moreover from built "2.IH" "2.prems"(2) have "instances m1 x = Some (Some obj)"
      by blast
    ultimately show ?thesis using built by auto
  qed (use "2.prems"(2) in simp_all)
next
  case (3 K d acc m)
  then show ?case by simp
next
  case (4 K d dep deps acc m)
  from "4.prems"(1) show ?case
  proof (cases rule: resolve_deps_ConsE)
    case (dep_failed e)
    from "4.IH"(1) [OF dep_failed(1) "4.prems"(2)] show ?thesis .
  next
    case (dep_ok obj0 m1)
    from "4.IH"(1) [OF dep_ok(1) "4.prems"(2)]
    have "instances m1 x = Some (Some obj)" .
    from "4.IH"(2) [OF dep_ok(1) [symmetric] refl dep_ok(2) this] show ?thesis .
  qed
qed

lemma resolved_deps_are_cached:
  "resolve_deps K n ds acc m = (Inr kw, m1) \<Longrightarrow> x \<in> set ds \<Longrightarrow>
     \<exists>obj. instances m1 x = Some (Some obj)"
proof (induction ds arbitrary: acc m)
  case Nil
  then show ?case by simp
next
  case (Cons dep deps)
  from Cons.prems(1) show ?case
  proof (cases rule: resolve_deps_ConsE)
    case (dep_failed e)
    then show ?thesis by simp
  next
    case (dep_ok obj m2)
    show ?thesis
    proof (cases "x = dep")
      case True
      from dep_ok(1) have "instances m2 dep = Some (Some obj)" by (rule resolved_is_cached)
      with dep_ok(2) True show ?thesis by (blast dest: cached_is_kept(2))
    next
      case False
      with Cons.prems(2) have "x \<in> set deps" by simp
      with Cons.IH dep_ok(2) show ?thesis by blast
    qed
  qed
qed

lemma resolve_deps_again:
  "resolve_deps K n ds acc m = (Inr kw, m1) \<Longrightarrow>
   (\<And>x obj. instances m1 x = Some (Some obj) \<Longrightarrow> instances m2 x = Some (Some obj)) \<Longrightarrow>
   resolve_deps K n ds acc m2 = (Inr kw, m2)"
proof (induction ds arbitrary: acc m)
  case Nil
  then show ?case by simp
next
  case (Cons dep deps)
  from Cons.prems(1) show ?case
  proof (cases rule: resolve_deps_ConsE)
    case (dep_failed e)
    then show ?thesis by simp
  next
    case (dep_ok obj ma)
    from dep_ok(1) obtain d where n: "n = Suc d" by (cases n) auto
    from dep_ok(1) have "instances ma dep = Some (Some obj)" by (rule resolved_is_cached)
    with dep_ok(2) have "instances m1 dep = Some (Some obj)" by (blast dest: cached_is_kept(2))
    then have "instances m2 dep = Some (Some obj)" by (rule Cons.prems(2))
    then have "get_instance K n dep m2 = (Inr obj, m2)" by (simp add: n)
    moreover from Cons.IH [OF dep_ok(2) Cons.prems(2)]
    have "resolve_deps K n deps
        (case cls_param_name (K dep) of None \<Rightarrow> acc | Some p \<Rightarrow> acc(p \<mapsto> obj)) m2 = (Inr kw, m2)"
      by simp
    ultimately show ?thesis by simp
  qed
qed

section \<open>Failures while an instance is built\<close>

lemma startup_loop_append:
  "startup_loop K d (pre @ cs) m0 =
     (case startup_loop K d pre m0 of
        (Some e, m) \<Rightarrow> (Some e, m)
      | (None, m) \<Rightarrow> startup_loop K d cs m)"
  by (induction pre arbitrary: m0) (auto split: prod.splits sum.splits)

lemma aborts_withI:
  assumes "get_instance K d c m = (Inl err, m')"
  shows "aborts_with K d c m err m'"
  using assms
  by (simp add: aborts_with_def get_def startup_def startup_loop_append)

lemma construction_outcome:
  assumes pend: "instances m c = Some None" and dl: "dependencies m c = Some deps"
    and rd: "resolve_deps K d deps Map.empty m = (Inr kw, m1)"
  shows "get_instance K (Suc d) c m =
     (case cls_init (K c) kw of
        Inl e \<Rightarrow> (Inl (wrap_type_error (cls_name (K c)) e), m1\<lparr>calls := calls m1 @ [Construct c]\<rparr>)
      | Inr obj \<Rightarrow>
          (case cls_setup (K c) obj of
             (Some e, obj') \<Rightarrow>
               (Inl (wrap_type_error (cls_name (K c)) e),
                m1\<lparr>instances := (instances m1)(c \<mapsto> Some obj'),
                   calls := calls m1 @ [Construct c, Setup c, SetupRaised c]\<rparr>)
           | (None, obj') \<Rightarrow>
               (Inr obj',
                m1\<lparr>instances := (instances m1)(c \<mapsto> Some obj'),
                   calls := calls m1 @ [Construct c, Setup c]\<rparr>)))"
  using assms by simp

lemma registered_alone_simps:
  "instances (registered_alone c) c = Some None"
  "dependencies (registered_alone c) c = Some []"
  "calls (registered_alone c) = []"
  by (simp_all add: registered_alone_def register_def Let_def new_manager_def or_empty_def)

text \<open>
  Claim C2, as the code has it. Take a registered class whose instance is absent and whose
  dependencies resolve. If its constructor raises, \<open>get\<close> raises, and so does a
  \<open>startup\<close> that reaches the class; the cache entry of the class is still absent, and
  the next \<open>get\<close> calls the constructor again. If the constructor returns and
  \<open>setup\<close> raises, the calls raise as well, but the instance is in the cache and the
  next \<open>get\<close> returns it.
\<close>

theorem failed_construction_not_cached:
  assumes pend: "instances m c = Some None" and dl: "dependencies m c = Some deps"
    and rd: "resolve_deps K d deps Map.empty m = (Inr kw, m1)"
  shows "(\<forall>e. cls_init (K c) kw = Inl e \<longrightarrow>
            (\<exists>m'. aborts_with K (Suc d) c m (wrap_type_error (cls_name (K c)) e) m' \<and>
               instances m' c = Some None \<and>
               get K (Suc d) c m' =
                 (Inl (wrap_type_error (cls_name (K c)) e),
                  m'\<lparr>calls := calls m' @ [Construct c]\<rparr>))) \<and>
         (\<forall>obj e obj'. cls_init (K c) kw = Inr obj \<longrightarrow> cls_setup (K c) obj = (Some e, obj') \<longrightarrow>
            (\<exists>m'. aborts_with K (Suc d) c m (wrap_type_error (cls_name (K c)) e) m' \<and>
               instances m' c = Some (Some obj') \<and>
               get K (Suc d) c m' = (Inr (deliver obj'), m')))"
proof (intro conjI allI impI)
  fix e assume init: "cls_init (K c) kw = Inl e"
  let ?m' = "m1\<lparr>calls := calls m1 @ [Construct c]\<rparr>"
  from init have "get_instance K (Suc d) c m = (Inl (wrap_type_error (cls_name (K c)) e), ?m')"
    unfolding construction_outcome [OF pend dl rd] by simp
  then have a: "aborts_with K (Suc d) c m (wrap_type_error (cls_name (K c)) e) ?m'"
    by (rule aborts_withI)
  from pend dl rd have p1: "instances m1 c = Some None"
    by (rule resolving_keeps_pending)
  from rd have "frame m m1" by (rule get_instance_frame)
  with dl have d1: "dependencies ?m' c = Some deps" by (simp add: frame_def)
  have "resolve_deps K d deps Map.empty ?m' = (Inr kw, ?m')"
    by (rule resolve_deps_again [OF rd]) simp
  with p1 d1 init
  have "get_instance K (Suc d) c ?m' =
      (Inl (wrap_type_error (cls_name (K c)) e), ?m'\<lparr>calls := calls ?m' @ [Construct c]\<rparr>)"
    by (subst construction_outcome [of ?m' c deps K d kw ?m']) simp_all
  then have "get K (Suc d) c ?m' =
      (Inl (wrap_type_error (cls_name (K c)) e), ?m'\<lparr>calls := calls ?m' @ [Construct c]\<rparr>)"
    by (simp add: get_def)
  with a p1 show "\<exists>m'. aborts_with K (Suc d) c m (wrap_type_error (cls_name (K c)) e) m' \<and>
      instances m' c = Some None \<and>
      get K (Suc d) c m' =
        (Inl (wrap_type_error (cls_name (K c)) e), m'\<lparr>calls := calls m' @ [Construct c]\<rparr>)"
    by (intro exI [of _ ?m']) simp
next
  fix obj e obj'
  assume init: "cls_init (K c) kw = Inr obj" and su: "cls_setup (K c) obj = (Some e, obj')"
  let ?m' = "m1\<lparr>instances := (instances m1)(c \<mapsto> Some obj'),
                 calls := calls m1 @ [Construct c, Setup c, SetupRaised c]\<rparr>"
  from init su have "get_instance K (Suc d) c m = (Inl (wrap_type_error (cls_name (K c)) e), ?m')"
    unfolding construction_outcome [OF pend dl rd] by simp
  then have a: "aborts_with K (Suc d) c m (wrap_type_error (cls_name (K c)) e) ?m'"
    by (rule aborts_withI)
  have "get K (Suc d) c ?m' = (Inr (deliver obj'), ?m')"
    by (simp add: get_def)
  with a show "\<exists>m'. aborts_with K (Suc d) c m (wrap_type_error (cls_name (K c)) e) m' \<and>
      instances m' c = Some (Some obj') \<and> get K (Suc d) c m' = (Inr (deliver obj'), m')"
    by (intro exI [of _ ?m']) simp
qed

text \<open>Claim C2 at work: the constructor of \<open>Flaky\<close> raises and nothing is cached.\<close>

theorem failed_construction_not_cached_witness:
  "fst (get demo_classes (Suc 0) ''Flaky'' (registered_alone ''Flaky'')) =
     Inl (OtherError ''boom'') \<and>
   instances (snd (get demo_classes (Suc 0) ''Flaky'' (registered_alone ''Flaky''))) ''Flaky'' =
     Some None"
proof -
  have rd: "resolve_deps demo_classes 0 [] Map.empty (registered_alone ''Flaky'') =
      (Inr Map.empty, registered_alone ''Flaky'')"
    by simp
  have init: "cls_init (demo_classes ''Flaky'') Map.empty = Inl (OtherError ''boom'')"
    by (simp add: demo_classes_simps)
  have "\<exists>m'. aborts_with demo_classes (Suc 0) ''Flaky'' (registered_alone ''Flaky'')
      (wrap_type_error (cls_name (demo_classes ''Flaky'')) (OtherError ''boom'')) m' \<and>
      instances m' ''Flaky'' = Some None"
    using failed_construction_not_cached
      [of "registered_alone ''Flaky''" "''Flaky''" "[]" demo_classes 0 Map.empty
        "registered_alone ''Flaky''",
        OF registered_alone_simps(1) registered_alone_simps(2) rd] init
    by blast
  then show ?thesis by (auto simp: aborts_with_def wrap_type_error_def)
qed

text \<open>
  Claim C2 as stated fails when \<open>setup\<close> raises: the entry of \<open>BadSetup\<close> is not
  absent after the failed \<open>get\<close>, and the next \<open>get\<close> returns the cached instance
  without any new call.
\<close>

theorem failed_setup_is_cached:
  "fst (get demo_classes (Suc 0) ''BadSetup'' (registered_alone ''BadSetup'')) =
     Inl (OtherError ''setup failed'') \<and>
   instances (snd (get demo_classes (Suc 0) ''BadSetup'' (registered_alone ''BadSetup'')))
     ''BadSetup'' = Some (Some plain_object) \<and>
   instances (snd (get demo_classes (Suc 0) ''BadSetup'' (registered_alone ''BadSetup'')))
     ''BadSetup'' \<noteq> Some None \<and>
   get demo_classes (Suc 0) ''BadSetup''
     (snd (get demo_classes (Suc 0) ''BadSetup'' (registered_alone ''BadSetup''))) =
     (Inr (Object plain_object),
      snd (get demo_classes (Suc 0) ''BadSetup'' (registered_alone ''BadSetup'')))"
proof -
  have g: "get demo_classes (Suc 0) ''BadSetup'' (registered_alone ''BadSetup'') =
     (Inl (OtherError ''setup failed''),
      (registered_alone ''BadSetup'')
        \<lparr>instances := (instances (registered_alone ''BadSetup''))(''BadSetup'' \<mapsto> Some plain_object),
         calls := calls (registered_alone ''BadSetup'') @
           [Construct ''BadSetup'', Setup ''BadSetup'', SetupRaised ''BadSetup'']\<rparr>)"
    by (simp add: get_def registered_alone_simps demo_classes_simps wrap_type_error_def)
  show ?thesis
    unfolding g by (simp add: get_def deliver_def plain_object_def)
qed




section \<open>Registration\<close>

lemma add_node_sets:
  "set (nodes (add_node c g)) = insert c (set (nodes g))"
  "edges (add_node c g) = edges g"
  by (auto simp: add_node_def)

lemma add_edge_sets:
  "set (nodes (add_edge u v g)) = insert u (insert v (set (nodes g)))"
  "set (edges (add_edge u v g)) = insert (u, v) (set (edges g))"
  by (auto simp: add_edge_def Let_def add_node_sets)

lemma add_edges_sets:
  "set (nodes (foldl (\<lambda>g dep. add_edge dep c g) g deps)) =
     set (nodes g) \<union> (if deps = [] then {} else {c}) \<union> set deps"
  "set (edges (foldl (\<lambda>g dep. add_edge dep c g) g deps)) =
     set (edges g) \<union> {(d, c) | d. d \<in> set deps}"
  by (induction deps arbitrary: g) (auto simp: add_edge_sets)

text \<open>Edges that all end in \<open>c\<close> close a cycle exactly when \<open>c\<close> reaches one of their sources.\<close>

lemma reach_without_new_edges:
  assumes ac: "acyclic (E \<union> N)" and into: "\<And>u v. (u, v) \<in> N \<Longrightarrow> v = c"
    and reach: "(c, x) \<in> (E \<union> N)\<^sup>*"
  shows "(c, x) \<in> E\<^sup>*"
  using reach
proof (induction rule: rtrancl_induct)
  case base
  show ?case by simp
next
  case (step y z)
  show ?case
  proof (cases "(y, z) \<in> E")
    case True
    with step.IH show ?thesis by (blast intro: rtrancl_into_rtrancl)
  next
    case False
    with step.hyps(2) have "(y, z) \<in> N" by simp
    then have "z = c" by (rule into)
    with step.hyps have "(c, c) \<in> (E \<union> N)\<^sup>+" by (blast intro: rtrancl_into_trancl1)
    with ac show ?thesis by (simp add: acyclic_def)
  qed
qed

lemma acyclic_add_edges:
  assumes "acyclic E"
  shows "acyclic (E \<union> {(d, c) | d. d \<in> set deps}) \<longleftrightarrow> (\<forall>d\<in>set deps. (c, d) \<notin> E\<^sup>*)"
proof (induction deps)
  case Nil
  from assms show ?case by simp
next
  case (Cons a deps)
  let ?N = "{(d, c) | d. d \<in> set deps}"
  have eq: "E \<union> {(d, c) | d. d \<in> set (a # deps)} = insert (a, c) (E \<union> ?N)" by auto
  have "(c, a) \<in> (E \<union> ?N)\<^sup>* \<longleftrightarrow> (c, a) \<in> E\<^sup>*" if "acyclic (E \<union> ?N)"
  proof
    assume r: "(c, a) \<in> (E \<union> ?N)\<^sup>*"
    have "\<And>u v. (u, v) \<in> ?N \<Longrightarrow> v = c" by simp
    from that this r show "(c, a) \<in> E\<^sup>*" by (rule reach_without_new_edges)
  next
    assume "(c, a) \<in> E\<^sup>*"
    then show "(c, a) \<in> (E \<union> ?N)\<^sup>*" by (rule rtrancl_mono [THEN subsetD, rotated]) simp
  qed
  with Cons.IH show ?case unfolding eq acyclic_insert by auto
qed

lemma register_outcome:
  shows "instances (snd (register K c deps_arg m)) = (instances m)(c \<mapsto> None)"
    and "dependencies (snd (register K c deps_arg m)) = (dependencies m)(c \<mapsto> or_empty deps_arg)"
    and "calls (snd (register K c deps_arg m)) = calls m"
    and "set (nodes (dependency_graph (snd (register K c deps_arg m)))) =
           insert c (set (nodes (dependency_graph m)) \<union> set (or_empty deps_arg))"
    and "set (edges (dependency_graph (snd (register K c deps_arg m)))) =
           set (edges (dependency_graph m)) \<union> {(d, c) | d. d \<in> set (or_empty deps_arg)}"
    and "fst (register K c deps_arg m) =
           (if acyclic (set (edges (dependency_graph m)) \<union> {(d, c) | d. d \<in> set (or_empty deps_arg)})
            then Inr c
            else Inl (ValueError (''Circular dependency detected when registering '' @ cls_name (K c))))"
  by (auto simp: register_def Let_def add_edges_sets add_node_sets
      is_directed_acyclic_graph_def)


text \<open>
  Claim C1, as the code has it. \<open>register\<close> returns the class or raises the
  \<^verbatim>\<open>ValueError\<close> of a circular dependency, and it returns the class exactly when the
  graph with the new node and edges is acyclic: on a graph that was acyclic, it raises
  exactly when the class is one of its own dependencies or reaches one of them along
  edges already there. In both cases the registration is in place afterwards: the cache
  entry is absent, the dependency list is stored, node and edges are in the graph.
\<close>

theorem register_cycle_check:
  "(fst (register K c deps_arg m) = Inr c \<or>
    fst (register K c deps_arg m) =
      Inl (ValueError (''Circular dependency detected when registering '' @ cls_name (K c)))) \<and>
   (fst (register K c deps_arg m) = Inr c \<longleftrightarrow>
      is_directed_acyclic_graph (dependency_graph (snd (register K c deps_arg m)))) \<and>
   (is_directed_acyclic_graph (dependency_graph m) \<longrightarrow>
      (fst (register K c deps_arg m) \<noteq> Inr c \<longleftrightarrow>
         (\<exists>d\<in>set (or_empty deps_arg). (c, d) \<in> (set (edges (dependency_graph m)))\<^sup>*))) \<and>
   instances (snd (register K c deps_arg m)) = (instances m)(c \<mapsto> None) \<and>
   dependencies (snd (register K c deps_arg m)) = (dependencies m)(c \<mapsto> or_empty deps_arg) \<and>
   set (nodes (dependency_graph (snd (register K c deps_arg m)))) =
     insert c (set (nodes (dependency_graph m)) \<union> set (or_empty deps_arg)) \<and>
   set (edges (dependency_graph (snd (register K c deps_arg m)))) =
     set (edges (dependency_graph m)) \<union> {(d, c) | d. d \<in> set (or_empty deps_arg)} \<and>
   calls (snd (register K c deps_arg m)) = calls m"
proof -
  let ?E = "set (edges (dependency_graph m))"
  let ?N = "{(d, c) | d. d \<in> set (or_empty deps_arg)}"
  have dag: "is_directed_acyclic_graph (dependency_graph (snd (register K c deps_arg m))) \<longleftrightarrow>
      acyclic (?E \<union> ?N)"
    by (simp add: is_directed_acyclic_graph_def register_outcome(5))
  have "acyclic (?E \<union> ?N) \<longleftrightarrow> (\<forall>d\<in>set (or_empty deps_arg). (c, d) \<notin> ?E\<^sup>*)"
    if "is_directed_acyclic_graph (dependency_graph m)"
    using that by (simp add: is_directed_acyclic_graph_def acyclic_add_edges)
  with dag show ?thesis
    by (auto simp: register_outcome)
qed


lemma registered_alone_eq:
  "registered_alone c =
     \<lparr>instances = [c \<mapsto> None], dependencies = [c \<mapsto> []],
      dependency_graph = \<lparr>nodes = [c], edges = []\<rparr>, calls = []\<rparr>"
  by (simp add: registered_alone_def register_def Let_def new_manager_def or_empty_def
      empty_graph_def add_node_def is_directed_acyclic_graph_def acyclic_def)

lemma registered_alone_graph:
  "dependency_graph (registered_alone c) = \<lparr>nodes = [c], edges = []\<rparr>"
  by (simp add: registered_alone_def register_def Let_def new_manager_def or_empty_def
      empty_graph_def add_node_def)

text \<open>Claim C1 at work: \<open>B\<close> depending on \<open>A\<close> is accepted and the graph is acyclic.\<close>

theorem register_cycle_check_witness:
  "fst (register demo_classes ''B'' (Some [''A'']) (registered_alone ''A'')) = Inr ''B'' \<and>
   is_directed_acyclic_graph
     (dependency_graph (snd (register demo_classes ''B'' (Some [''A'']) (registered_alone ''A''))))"
proof -
  have dag: "is_directed_acyclic_graph (dependency_graph (registered_alone ''A''))"
    by (simp add: registered_alone_graph is_directed_acyclic_graph_def acyclic_def)
  have "\<not> (\<exists>d\<in>set (or_empty (Some [''A''])).
      (''B'', d) \<in> (set (edges (dependency_graph (registered_alone ''A''))))\<^sup>*)"
    by (simp add: registered_alone_graph or_empty_def)
  with dag register_cycle_check
    [of demo_classes "''B''" "Some [''A'']" "registered_alone ''A''"]
  show ?thesis by blast
qed

lemma a_needs_b_simps:
  "instances a_needs_b = [''A'' \<mapsto> None]"
  "dependencies a_needs_b = [''A'' \<mapsto> [''B'']]"
  "dependency_graph a_needs_b = \<lparr>nodes = [''A'', ''B''], edges = [(''B'', ''A'')]\<rparr>"
  "calls a_needs_b = []"
  by (simp_all add: a_needs_b_def register_def Let_def new_manager_def or_empty_def
      empty_graph_def add_node_def add_edge_def)

text \<open>
  Claim C1 as stated fails: with \<open>A\<close> registered as depending on \<open>B\<close>, registering
  \<open>B\<close> as depending on \<open>A\<close> raises, and yet \<open>B\<close> is registered afterwards, the
  new edge is in the graph and the graph has a cycle.
\<close>

theorem rejected_registration_stays:
  "fst (register demo_classes ''B'' (Some [''A'']) a_needs_b) =
     Inl (ValueError ''Circular dependency detected when registering B'') \<and>
   instances a_needs_b ''B'' = None \<and>
   instances (snd (register demo_classes ''B'' (Some [''A'']) a_needs_b)) ''B'' = Some None \<and>
   edges (dependency_graph a_needs_b) = [(''B'', ''A'')] \<and>
   edges (dependency_graph (snd (register demo_classes ''B'' (Some [''A'']) a_needs_b))) =
     [(''B'', ''A''), (''A'', ''B'')] \<and>
   \<not> is_directed_acyclic_graph
       (dependency_graph (snd (register demo_classes ''B'' (Some [''A'']) a_needs_b)))"
proof -
  have cyc: "\<not> acyclic {(''B'', ''A''), (''A'', ''B'')}"
  proof
    assume "acyclic {(''B'', ''A''), (''A'', ''B'')}"
    moreover have "(''A'', ''A'') \<in> {(''B'', ''A''), (''A'', ''B'')}\<^sup>+"
      by (rule trancl_into_trancl [of _ "''B''"]) auto
    ultimately show False by (simp add: acyclic_def)
  qed
  have g: "dependency_graph (snd (register demo_classes ''B'' (Some [''A'']) a_needs_b)) =
      \<lparr>nodes = [''A'', ''B''], edges = [(''B'', ''A''), (''A'', ''B'')]\<rparr>"
    by (simp add: register_def Let_def or_empty_def a_needs_b_simps add_node_def add_edge_def)
  have f: "fst (register demo_classes ''B'' (Some [''A'']) a_needs_b) =
      Inl (ValueError ''Circular dependency detected when registering B'')"
    using cyc
    by (simp add: register_def Let_def or_empty_def a_needs_b_simps add_node_def add_edge_def
        is_directed_acyclic_graph_def demo_classes_simps insert_commute)
  from cyc show ?thesis
    unfolding g f
    by (simp add: a_needs_b_simps register_outcome(1) is_directed_acyclic_graph_def insert_commute)
qed


text \<open>
  Claim C10, as the code has it. Registering a class that is registered already is not
  refused for that: the dependency list is overwritten, the cache entry becomes absent
  whatever it held, no call is made (no \<open>teardown\<close>), nothing else in the two tables
  changes, and the edges of the earlier registration stay. The call returns the class
  exactly when the graph with the new edges is acyclic, and raises the \<^verbatim>\<open>ValueError\<close>
  of a circular dependency otherwise.
\<close>

theorem reregistration_overwrites:
  assumes "instances m c \<noteq> None"
  shows "instances (snd (register K c deps_arg m)) c = Some None \<and>
     dependencies (snd (register K c deps_arg m)) c = Some (or_empty deps_arg) \<and>
     calls (snd (register K c deps_arg m)) = calls m \<and>
     (\<forall>x. x \<noteq> c \<longrightarrow>
        instances (snd (register K c deps_arg m)) x = instances m x \<and>
        dependencies (snd (register K c deps_arg m)) x = dependencies m x) \<and>
     set (edges (dependency_graph (snd (register K c deps_arg m)))) =
       set (edges (dependency_graph m)) \<union> {(d, c) | d. d \<in> set (or_empty deps_arg)} \<and>
     (fst (register K c deps_arg m) = Inr c \<longleftrightarrow>
        is_directed_acyclic_graph (dependency_graph (snd (register K c deps_arg m)))) \<and>
     (fst (register K c deps_arg m) \<noteq> Inr c \<longrightarrow>
        fst (register K c deps_arg m) =
          Inl (ValueError (''Circular dependency detected when registering '' @ cls_name (K c))))"
  by (simp add: register_outcome is_directed_acyclic_graph_def)

lemma a_built_simps:
  "instances a_built = [''A'' \<mapsto> Some plain_object]"
  "dependencies a_built = [''A'' \<mapsto> []]"
  "dependency_graph a_built = \<lparr>nodes = [''A''], edges = []\<rparr>"
  "calls a_built = [Construct ''A'', Setup ''A'']"
  by (simp_all add: a_built_def get_def registered_alone_eq demo_classes_simps)

text \<open>Claim C10 at work: \<open>A\<close> is built, then registered again.\<close>

theorem reregistration_overwrites_witness:
  "instances a_built ''A'' = Some (Some plain_object) \<and>
   fst (register demo_classes ''A'' None a_built) = Inr ''A'' \<and>
   instances (snd (register demo_classes ''A'' None a_built)) ''A'' = Some None \<and>
   calls (snd (register demo_classes ''A'' None a_built)) = [Construct ''A'', Setup ''A'']"
proof -
  have reg: "instances a_built ''A'' \<noteq> None"
    by (simp add: a_built_simps)
  have e: "set (edges (dependency_graph a_built)) \<union> {(d, ''A'') | d. d \<in> set (or_empty None)} = {}"
    by (simp add: a_built_simps or_empty_def)
  from reregistration_overwrites [of a_built "''A''" demo_classes None, OF reg]
  show ?thesis
    unfolding e by (simp add: a_built_simps is_directed_acyclic_graph_def acyclic_def)
qed

lemma b_needs_a_simps:
  "instances b_needs_a = [''A'' \<mapsto> None, ''B'' \<mapsto> None]"
  "dependencies b_needs_a = [''A'' \<mapsto> [], ''B'' \<mapsto> [''A'']]"
  "dependency_graph b_needs_a = \<lparr>nodes = [''A'', ''B''], edges = [(''A'', ''B'')]\<rparr>"
  "calls b_needs_a = []"
  by (simp_all add: b_needs_a_def register_def Let_def or_empty_def registered_alone_eq
      add_node_def add_edge_def)

text \<open>
  Claim C10 as stated fails: with \<open>B\<close> depending on \<open>A\<close>, registering \<open>A\<close> again
  as depending on \<open>B\<close> raises.
\<close>

theorem reregistration_rejected:
  "instances b_needs_a ''A'' = Some None \<and>
   fst (register demo_classes ''A'' (Some [''B'']) b_needs_a) =
     Inl (ValueError ''Circular dependency detected when registering A'')"
proof -
  have cyc: "\<not> acyclic {(''A'', ''B''), (''B'', ''A'')}"
  proof
    assume "acyclic {(''A'', ''B''), (''B'', ''A'')}"
    moreover have "(''A'', ''A'') \<in> {(''A'', ''B''), (''B'', ''A'')}\<^sup>+"
      by (rule trancl_into_trancl [of _ "''B''"]) auto
    ultimately show False by (simp add: acyclic_def)
  qed
  then show ?thesis
    by (simp add: register_def Let_def or_empty_def b_needs_a_simps add_node_def add_edge_def
        is_directed_acyclic_graph_def demo_classes_simps insert_commute)
qed

section \<open>Start-up\<close>

lemma startup_loop_frame:
  "startup_loop K d cs m = (r, m1) \<Longrightarrow> frame m m1"
proof (induction cs arbitrary: m)
  case Nil
  then show ?case by (simp add: frame_refl)
next
  case (Cons c cs)
  obtain r0 m0 where g: "get_instance K d c m = (r0, m0)" by (cases "get_instance K d c m")
  then have f: "frame m m0" by (rule get_instance_frame)
  show ?case
  proof (cases r0)
    case (Inl e)
    with Cons.prems g f show ?thesis by simp
  next
    case (Inr obj)
    with Cons.prems g have "startup_loop K d cs m0 = (r, m1)" by simp
    with Cons.IH f show ?thesis by (blast intro: frame_trans)
  qed
qed

lemma startup_loop_keeps:
  "startup_loop K d cs m = (r, m1) \<Longrightarrow> instances m x = Some (Some obj) \<Longrightarrow>
     instances m1 x = Some (Some obj)"
proof (induction cs arbitrary: m)
  case Nil
  then show ?case by simp
next
  case (Cons c cs)
  obtain r0 m0 where g: "get_instance K d c m = (r0, m0)" by (cases "get_instance K d c m")
  with Cons.prems(2) have k: "instances m0 x = Some (Some obj)" by (blast dest: cached_is_kept(1))
  show ?case
  proof (cases r0)
    case (Inl e)
    with Cons.prems g k show ?thesis by simp
  next
    case (Inr obj0)
    with Cons.prems g have "startup_loop K d cs m0 = (r, m1)" by simp
    with Cons.IH k show ?thesis by blast
  qed
qed

lemma startup_loop_caches:
  "startup_loop K d cs m = (None, m1) \<Longrightarrow> c \<in> set cs \<Longrightarrow>
     0 < d \<and> (\<exists>obj. instances m1 c = Some (Some obj))"
proof (induction cs arbitrary: m)
  case Nil
  then show ?case by simp
next
  case (Cons a cs)
  obtain r0 m0 where g: "get_instance K d a m = (r0, m0)" by (cases "get_instance K d a m")
  with Cons.prems(1) obtain obj where r0: "r0 = Inr obj" and rest: "startup_loop K d cs m0 = (None, m1)"
    by (cases r0) auto
  show ?case
  proof (cases "c = a")
    case True
    from g r0 have "instances m0 a = Some (Some obj)" by (simp add: resolved_is_cached)
    with rest have "instances m1 a = Some (Some obj)" by (rule startup_loop_keeps)
    moreover from g r0 have "0 < d" by (cases d) auto
    ultimately show ?thesis using True by simp
  next
    case False
    with Cons.prems(2) have "c \<in> set cs" by simp
    with Cons.IH rest show ?thesis by blast
  qed
qed






lemma acyclic_empty: "acyclic {}"
  by (simp add: acyclic_def)

lemma plain_get_fn: "get_fn plain_object = None"
  by (simp add: plain_object_def)








text \<open>
  What \<open>get\<close> hands over for an instance that was created with a \<^verbatim>\<open>get_fn\<close>: the
  result of that function.
\<close>

lemma get_goes_through_get_fn:
  "instances indirect_built ''Indirect'' = Some (Some indirect_object) \<and>
   get demo_classes (Suc 0) ''Indirect'' indirect_built = (Inr (Indirect 7), indirect_built)"
proof -
  have i: "instances indirect_built ''Indirect'' = Some (Some indirect_object)"
    by (simp add: indirect_built_def get_def registered_alone_eq demo_classes_simps)
  then have "get demo_classes (Suc 0) ''Indirect'' indirect_built =
      (Inr (Indirect 7), indirect_built)"
    by (simp add: get_def deliver_def indirect_object_def)
  with i show ?thesis by simp
qed

section \<open>Injection\<close>

text \<open>
  Claim C7, as the code has it. \<open>depends\<close> resolves the instance when it is called: it
  leaves the manager as \<open>get\<close> would and raises what \<open>get\<close> would raise. The accessor
  it returns takes no argument, and every call of it returns what \<open>get\<close> returned at
  that moment: the instance then put in the cache, or the result of its \<^verbatim>\<open>get_fn\<close>.
\<close>

theorem depends_resolves_at_call:
  "snd (depends K d c m) = snd (get K d c m) \<and>
   (\<forall>e. fst (depends K d c m) = Inl e \<longleftrightarrow> fst (get K d c m) = Inl e) \<and>
   (\<forall>accessor. fst (depends K d c m) = Inr (Depends accessor) \<longrightarrow>
      fst (get K d c m) = Inr (accessor ()) \<and>
      (\<exists>obj. instances (snd (depends K d c m)) c = Some (Some obj) \<and>
         (\<forall>u. accessor u = deliver obj)))"
proof -
  obtain r m1 where g: "get_instance K d c m = (r, m1)" by (cases "get_instance K d c m")
  show ?thesis
  proof (cases r)
    case (Inl e)
    with g show ?thesis by (simp add: depends_def get_def)
  next
    case (Inr obj)
    with g have "instances m1 c = Some (Some obj)" by (simp add: resolved_is_cached)
    with g Inr show ?thesis
      by (cases "get_fn obj") (auto simp: depends_def get_def deliver_def)
  qed
qed

text \<open>Claim C7 at work on a class that is registered and not yet built.\<close>

theorem depends_resolves_at_call_witness:
  "snd (depends demo_classes (Suc 0) ''A'' (registered_alone ''A'')) = a_built \<and>
   (\<exists>accessor. fst (depends demo_classes (Suc 0) ''A'' (registered_alone ''A'')) =
      Inr (Depends accessor) \<and> accessor () = Object plain_object)"
proof -
  have f: "fst (depends demo_classes (Suc 0) ''A'' (registered_alone ''A'')) =
      Inr (Depends (\<lambda>u. Object plain_object))"
    by (simp add: depends_def registered_alone_eq demo_classes_simps plain_get_fn)
  from depends_resolves_at_call [of demo_classes "Suc 0" "''A''" "registered_alone ''A''"] f
  show ?thesis by (simp add: a_built_def)
qed

text \<open>
  Claim C7 as stated fails: the call of \<open>depends\<close> itself constructs and sets up the
  instance; nothing is left to do when the accessor is invoked.
\<close>

theorem depends_builds_at_once:
  "instances (registered_alone ''A'') ''A'' = Some None \<and>
   calls (registered_alone ''A'') = [] \<and>
   instances (snd (depends demo_classes (Suc 0) ''A'' (registered_alone ''A''))) ''A'' =
     Some (Some plain_object) \<and>
   calls (snd (depends demo_classes (Suc 0) ''A'' (registered_alone ''A''))) =
     [Construct ''A'', Setup ''A'']"
  by (simp add: depends_def registered_alone_eq demo_classes_simps plain_get_fn)

section \<open>Well-formed managers\<close>

text \<open>Every manager that the operations can reach is well formed.\<close>

lemma new_manager_well_formed: "well_formed new_manager"
  by (simp add: well_formed_def new_manager_def)

lemma register_well_formed:
  assumes "well_formed m"
  shows "well_formed (snd (register K c deps_arg m))"
  using assms
  unfolding well_formed_def register_outcome
  by (auto split: if_splits)

lemma frame_well_formed:
  assumes "frame m m'" and "well_formed m"
  shows "well_formed m'"
  using assms by (simp add: frame_def well_formed_def)

lemma startup_well_formed:
  assumes "startup K d tsort m = (r, m')" and "well_formed m"
  shows "well_formed m'"
proof -
  from assms(1) have "frame m m'"
    by (auto simp: startup_def split: prod.splits option.splits if_splits
        dest: startup_loop_frame)
  with assms(2) show ?thesis by (blast intro: frame_well_formed)
qed

section \<open>The order of construction\<close>

lemma has_instance_iff: "has_instance m c \<longleftrightarrow> (\<exists>obj. instances m c = Some (Some obj))"
  by (auto simp: has_instance_def split: option.splits)

lemma set_up_now: "set_up c (evs @ [Construct c, Setup c])"
  by (simp add: set_up_def)

lemma set_up_later:
  "set_up a evs \<Longrightarrow> Construct a \<notin> set evs' \<Longrightarrow> SetupRaised a \<notin> set evs' \<Longrightarrow>
     set_up a (evs @ evs')"
  by (induction evs' rule: rev_induct) (auto simp: set_up_def)

lemma built_before_now:
  "set_up a evs \<Longrightarrow> a \<noteq> c \<Longrightarrow> built_before a c (evs @ [Construct c, Setup c])"
  by (simp add: built_before_def)

lemma built_before_later:
  "built_before a b evs \<Longrightarrow> Construct a \<notin> set evs' \<Longrightarrow> Construct b \<notin> set evs' \<Longrightarrow>
     built_before a b (evs @ evs')"
proof (induction evs' rule: rev_induct)
  case Nil
  then show ?case by simp
next
  case (snoc e evs')
  then have "built_before a b (evs @ evs')" by simp
  with snoc.prems show ?case
    by (auto simp: built_before_def)
qed

lemma ordered_cache_log:
  assumes "ordered_cache m" and "instances m c = Some None"
  shows "ordered_cache (m\<lparr>calls := calls m @ [Construct c]\<rparr>)"
  unfolding ordered_cache_def
proof (intro allI impI)
  fix b
  assume "has_instance (m\<lparr>calls := calls m @ [Construct c]\<rparr>) b"
  then have hb: "has_instance m b" by (simp add: has_instance_def)
  with assms(2) have bc: "b \<noteq> c" by (auto simp: has_instance_def)
  from assms(1) hb have sb: "set_up b (calls m)" by (simp add: ordered_cache_def)
  {
    fix ds a
    assume d: "dependencies m b = Some ds" "a \<in> set ds"
    with assms(1) hb have ha: "has_instance m a" and bb: "built_before a b (calls m)"
      by (auto simp: ordered_cache_def)
    from ha assms(2) have "a \<noteq> c" by (auto simp: has_instance_def)
    with bb bc ha have "has_instance m a \<and> built_before a b (calls m @ [Construct c])"
      by (simp add: built_before_later)
  }
  with sb bc show "set_up b (calls (m\<lparr>calls := calls m @ [Construct c]\<rparr>)) \<and>
      (\<forall>ds a. dependencies (m\<lparr>calls := calls m @ [Construct c]\<rparr>) b = Some ds \<longrightarrow> a \<in> set ds \<longrightarrow>
         has_instance (m\<lparr>calls := calls m @ [Construct c]\<rparr>) a \<and>
         built_before a b (calls (m\<lparr>calls := calls m @ [Construct c]\<rparr>)))"
    by (simp add: set_up_later has_instance_def)
qed

lemma ordered_cache_store:
  assumes oc: "ordered_cache m" and pend: "instances m c = Some None"
    and deps: "\<And>ds a. dependencies m c = Some ds \<Longrightarrow> a \<in> set ds \<Longrightarrow> has_instance m a"
  shows "ordered_cache
     (m\<lparr>instances := (instances m)(c \<mapsto> Some obj), calls := calls m @ [Construct c, Setup c]\<rparr>)"
    (is "ordered_cache ?m'")
  unfolding ordered_cache_def
proof (intro allI impI conjI)
  fix b assume hb: "has_instance ?m' b"
  show "set_up b (calls ?m')"
  proof (cases "b = c")
    case True
    then show ?thesis by (simp add: set_up_now)
  next
    case False
    with hb have "has_instance m b" by (simp add: has_instance_def)
    with oc have "set_up b (calls m)" by (simp add: ordered_cache_def)
    with False show ?thesis by (simp add: set_up_later)
  qed
next
  fix b ds a
  assume hb: "has_instance ?m' b" and d: "dependencies ?m' b = Some ds" and a: "a \<in> set ds"
  from d have d': "dependencies m b = Some ds" by simp
  have ha: "has_instance m a"
  proof (cases "b = c")
    case True
    with d' a show ?thesis by (blast intro: deps)
  next
    case False
    with hb have "has_instance m b" by (simp add: has_instance_def)
    with oc d' a show ?thesis by (auto simp: ordered_cache_def)
  qed
  with pend have ac: "a \<noteq> c" by (auto simp: has_instance_def)
  with ha show "has_instance ?m' a" by (simp add: has_instance_def)
  show "built_before a b (calls ?m')"
  proof (cases "b = c")
    case True
    from oc ha have "set_up a (calls m)" by (simp add: ordered_cache_def)
    with ac True show ?thesis by (simp add: built_before_now)
  next
    case False
    with hb have "has_instance m b" by (simp add: has_instance_def)
    with oc d' a have "built_before a b (calls m)" by (auto simp: ordered_cache_def)
    with ac False show ?thesis by (simp add: built_before_later)
  qed
qed


lemma resolution_keeps_order:
  "get_instance K n c m = (Inr obj, m') \<Longrightarrow> ordered_cache m \<Longrightarrow> ordered_cache m'"
  "resolve_deps K n ds acc m = (Inr kw, m') \<Longrightarrow> ordered_cache m \<Longrightarrow> ordered_cache m'"
proof (induction K n c m and K n ds acc m arbitrary: obj m' and kw m'
    rule: get_instance_resolve_deps.induct)
  case (1 K c m)
  then show ?case by simp
next
  case (2 K d c m)
  from "2.prems"(1) show ?case
  proof (cases rule: get_instance_SucE)
    case (built deps kw m1 obj0 obj')
    have "ordered_cache
        (m1\<lparr>instances := (instances m1)(c \<mapsto> Some obj'), calls := calls m1 @ [Construct c, Setup c]\<rparr>)"
    proof (rule ordered_cache_store)
      from "2.IH" [OF built(1) refl built(2,3) "2.prems"(2)] show "ordered_cache m1" .
      from built(1,2,3) show "instances m1 c = Some None" by (rule resolving_keeps_pending)
      fix ds a assume "dependencies m1 c = Some ds" "a \<in> set ds"
      moreover from built(3) have "frame m m1" by (rule get_instance_frame)
      ultimately have "a \<in> set deps" using built(2) by (simp add: frame_def)
      with built(3) show "has_instance m1 a"
        by (auto simp: has_instance_iff dest: resolved_deps_are_cached)
    qed
    with built show ?thesis by simp
  qed (use "2.prems"(2) in simp_all)
next
  case (3 K d acc m)
  then show ?case by simp
next
  case (4 K d dep deps acc m)
  from "4.prems"(1) show ?case
  proof (cases rule: resolve_deps_ConsE)
    case (dep_failed e)
    then show ?thesis by simp
  next
    case (dep_ok obj m1)
    from "4.IH"(1) [OF dep_ok(1) "4.prems"(2)] have "ordered_cache m1" .
    from "4.IH"(2) [OF dep_ok(1) [symmetric] refl dep_ok(2) this] show ?thesis .
  qed
qed

lemma startup_loop_keeps_order:
  "startup_loop K d cs m = (None, m1) \<Longrightarrow> ordered_cache m \<Longrightarrow> ordered_cache m1"
proof (induction cs arbitrary: m)
  case Nil
  then show ?case by simp
next
  case (Cons c cs)
  obtain r0 m0 where g: "get_instance K d c m = (r0, m0)" by (cases "get_instance K d c m")
  show ?case
  proof (cases r0)
    case (Inl e)
    with Cons.prems g show ?thesis by simp
  next
    case (Inr obj)
    with g Cons.prems(2) have o: "ordered_cache m0" by (blast dest: resolution_keeps_order(1))
    from Inr Cons.prems g have "startup_loop K d cs m0 = (None, m1)" by simp
    with Cons.IH o show ?thesis by blast
  qed
qed

text \<open>
  A resolution that raises keeps the cache ordered too, unless what raised is a
  \<^verbatim>\<open>setup\<close>: then the history ends with that call.
\<close>

lemma failed_resolution_order:
  "get_instance K n c m = (Inl e, m') \<Longrightarrow> ordered_cache m \<Longrightarrow>
     ordered_cache m' \<or> (\<exists>x evs. calls m' = evs @ [SetupRaised x])"
  "resolve_deps K n ds acc m = (Inl e', m') \<Longrightarrow> ordered_cache m \<Longrightarrow>
     ordered_cache m' \<or> (\<exists>x evs. calls m' = evs @ [SetupRaised x])"
proof (induction K n c m and K n ds acc m arbitrary: e m' and e' m'
    rule: get_instance_resolve_deps.induct)
  case (1 K c m)
  then show ?case by simp
next
  case (2 K d c m)
  from "2.prems"(1) show ?case
  proof (cases rule: get_instance_SucE)
    case (deps_failed deps e0)
    from "2.IH" [OF deps_failed(1) refl deps_failed(2,3) "2.prems"(2)] show ?thesis .
  next
    case (init_failed deps kw m1 e0)
    from init_failed(3) "2.prems"(2) have "ordered_cache m1" by (rule resolution_keeps_order(2))
    moreover from init_failed(1,2,3) have "instances m1 c = Some None"
      by (rule resolving_keeps_pending)
    ultimately have "ordered_cache m'" unfolding init_failed(5) by (rule ordered_cache_log)
    then show ?thesis ..
  next
    case (setup_failed deps kw m1 obj e0 obj')
    then have "calls m' = (calls m1 @ [Construct c, Setup c]) @ [SetupRaised c]" by simp
    then show ?thesis by blast
  qed (use "2.prems"(2) in simp_all)
next
  case (3 K d acc m)
  then show ?case by simp
next
  case (4 K d dep deps acc m)
  from "4.prems"(1) show ?case
  proof (cases rule: resolve_deps_ConsE)
    case (dep_failed e0)
    from "4.IH"(1) [OF dep_failed(1) [unfolded dep_failed(2) [symmetric]]] "4.prems"(2) dep_failed
    show ?thesis by simp
  next
    case (dep_ok obj m1)
    from dep_ok(1) "4.prems"(2) have "ordered_cache m1" by (rule resolution_keeps_order(1))
    from "4.IH"(2) [OF dep_ok(1) [symmetric] refl dep_ok(2) this] show ?thesis .
  qed
qed

lemma startup_loop_order:
  "startup_loop K d cs m = (r, m1) \<Longrightarrow> ordered_cache m \<Longrightarrow>
     ordered_cache m1 \<or> (\<exists>x evs. calls m1 = evs @ [SetupRaised x])"
proof (induction cs arbitrary: m)
  case Nil
  then show ?case by simp
next
  case (Cons c cs)
  obtain r0 m0 where g: "get_instance K d c m = (r0, m0)" by (cases "get_instance K d c m")
  show ?case
  proof (cases r0)
    case (Inl e)
    with Cons.prems(1) g have "m1 = m0" by simp
    with g Inl Cons.prems(2) show ?thesis by (blast dest: failed_resolution_order(1))
  next
    case (Inr obj)
    with g Cons.prems(2) have o: "ordered_cache m0" by (blast dest: resolution_keeps_order(1))
    from Inr Cons.prems g have "startup_loop K d cs m0 = (r, m1)" by simp
    with Cons.IH o show ?thesis by blast
  qed
qed

subsection \<open>The operations that keep the cache ordered\<close>


lemma new_manager_is_ordered: "ordered_cache new_manager"
  by (simp add: ordered_cache_def has_instance_def new_manager_def)


lemma depends_keeps_order:
  "depends K d c m = (Inr v, m') \<Longrightarrow> ordered_cache m \<Longrightarrow> ordered_cache m'"
  by (auto simp: depends_def split: prod.splits sum.splits option.splits
      dest: resolution_keeps_order(1))

lemma startup_keeps_order:
  "startup K d tsort m = (None, m1) \<Longrightarrow> ordered_cache m \<Longrightarrow> ordered_cache m1"
  by (auto simp: startup_def split: prod.splits option.splits if_splits
      dest: startup_loop_keeps_order)

lemma get_raising_keeps_order:
  "get K d c m = (Inl e, m') \<Longrightarrow> ordered_cache m \<Longrightarrow>
     ordered_cache m' \<or> (\<exists>x evs. calls m' = evs @ [SetupRaised x])"
  by (auto simp: get_def split: prod.splits sum.splits dest: failed_resolution_order(1))

lemma depends_raising_keeps_order:
  "depends K d c m = (Inl e, m') \<Longrightarrow> ordered_cache m \<Longrightarrow>
     ordered_cache m' \<or> (\<exists>x evs. calls m' = evs @ [SetupRaised x])"
  by (auto simp: depends_def split: prod.splits sum.splits option.splits
      dest: failed_resolution_order(1))

lemma startup_raising_keeps_order:
  assumes "startup K d tsort m = (Some e, m1)" and "ordered_cache m"
  shows "ordered_cache m1 \<or> (\<exists>x evs. calls m1 = evs @ [SetupRaised x])"
proof -
  obtain order unfeasible where ts: "tsort (dependency_graph m) = (order, unfeasible)"
    by (cases "tsort (dependency_graph m)")
  obtain r m0 where loop: "startup_loop K d order m = (r, m0)"
    by (cases "startup_loop K d order m")
  with ts assms(1) have "m1 = m0"
    by (auto simp: startup_def split: option.splits if_splits)
  with loop assms(2) show ?thesis by (blast dest: startup_loop_order)
qed

lemma register_keeps_order:
  assumes oc: "ordered_cache m"
    and free: "\<And>b ds. has_instance m b \<Longrightarrow> dependencies m b = Some ds \<Longrightarrow> c \<notin> set ds"
  shows "ordered_cache (snd (register K c deps_arg m))"
proof -
  let ?m' = "snd (register K c deps_arg m)"
  have i: "instances ?m' = (instances m)(c \<mapsto> None)"
    and d: "dependencies ?m' = (dependencies m)(c \<mapsto> or_empty deps_arg)"
    and l: "calls ?m' = calls m"
    by (rule register_outcome)+
  have h: "has_instance ?m' x \<longleftrightarrow> x \<noteq> c \<and> has_instance m x" for x
    by (simp add: has_instance_def i)
  show ?thesis
    unfolding ordered_cache_def
  proof (intro allI impI conjI)
    fix b assume "has_instance ?m' b"
    with oc show "set_up b (calls ?m')" by (simp add: h l ordered_cache_def)
  next
    fix b ds a
    assume hb: "has_instance ?m' b" and ds: "dependencies ?m' b = Some ds" and a: "a \<in> set ds"
    from hb have bc: "b \<noteq> c" and hb': "has_instance m b" by (simp_all add: h)
    from ds bc have ds': "dependencies m b = Some ds" by (simp add: d)
    with oc hb' a have ha: "has_instance m a" and bb: "built_before a b (calls m)"
      by (auto simp: ordered_cache_def)
    from free [OF hb' ds'] a have "a \<noteq> c" by auto
    with ha show "has_instance ?m' a" by (simp add: h)
    from bb show "built_before a b (calls ?m')" by (simp add: l)
  qed
qed

lemma register_new_keeps_order:
  assumes oc: "ordered_cache m" and c: "\<not> has_instance m c"
  shows "ordered_cache (snd (register K c deps_arg m))"
  using oc
proof (rule register_keeps_order)
  fix b ds
  assume "has_instance m b" "dependencies m b = Some ds"
  with oc c show "c \<notin> set ds" by (auto simp: ordered_cache_def)
qed





section \<open>Shutdown\<close>

lemma resolve_cached_deps:
  "(\<And>a. a \<in> set ds \<Longrightarrow> has_instance m a) \<Longrightarrow> resolve_deps K n ds acc m = (r, m') \<Longrightarrow> m' = m"
proof (induction ds arbitrary: acc)
  case Nil
  then show ?case by simp
next
  case (Cons a ds)
  from Cons.prems(1) [of a] obtain obj where c: "instances m a = Some (Some obj)"
    by (auto simp: has_instance_iff)
  show ?case
  proof (cases n)
    case 0
    with Cons.prems(2) show ?thesis by simp
  next
    case (Suc d)
    with c have "get_instance K n a m = (Inr obj, m)" by simp
    with Cons.prems(2) have "resolve_deps K n ds
        (case cls_param_name (K a) of None \<Rightarrow> acc | Some p \<Rightarrow> acc(p \<mapsto> obj)) m = (r, m')"
      by simp
    with Cons.IH Cons.prems(1) show ?thesis by simp
  qed
qed

lemma build_with_cached_deps:
  assumes ok: "get_instance K d c m = (Inr obj, m')" and nc: "\<not> has_instance m c"
    and deps: "\<And>ds a. dependencies m c = Some ds \<Longrightarrow> a \<in> set ds \<Longrightarrow> has_instance m a"
  shows "m' = m\<lparr>instances := (instances m)(c \<mapsto> Some obj), calls := calls m @ [Construct c, Setup c]\<rparr>"
proof (cases d)
  case 0
  with ok show ?thesis by simp
next
  case (Suc d')
  with ok have "get_instance K (Suc d') c m = (Inr obj, m')" by simp
  then show ?thesis
  proof (cases rule: get_instance_SucE)
    case (cached obj0)
    with nc show ?thesis by (simp add: has_instance_def)
  next
    case (built ds kw m1 obj0 obj')
    from built(2) have "\<And>a. a \<in> set ds \<Longrightarrow> has_instance m a" by (rule deps)
    then have "m1 = m" using built(3) by (rule resolve_cached_deps)
    with built show ?thesis by simp
  qed simp_all
qed

lemma startup_loop_in_order:
  assumes "distinct cs"
    and "\<And>c. c \<in> set cs \<Longrightarrow> \<not> has_instance m c"
    and "\<And>c ds a. c \<in> set cs \<Longrightarrow> dependencies m c = Some ds \<Longrightarrow> a \<in> set ds \<Longrightarrow>
           has_instance m a \<or> a \<in> set (takeWhile (\<lambda>x. x \<noteq> c) cs)"
    and "startup_loop K d cs m = (None, m1)"
  shows "calls m1 = calls m @ concat (map (\<lambda>c. [Construct c, Setup c]) cs)"
  using assms
proof (induction cs arbitrary: m)
  case Nil
  then show ?case by simp
next
  case (Cons c cs)
  obtain r0 m0 where g: "get_instance K d c m = (r0, m0)" by (cases "get_instance K d c m")
  with Cons.prems(4) obtain obj where r0: "r0 = Inr obj" and rest: "startup_loop K d cs m0 = (None, m1)"
    by (cases r0) auto
  have "has_instance m a" if "dependencies m c = Some ds" "a \<in> set ds" for ds a
    using Cons.prems(3) [of c ds a] that by simp
  with g r0 Cons.prems(2) [of c]
  have m0: "m0 = m\<lparr>instances := (instances m)(c \<mapsto> Some obj),
      calls := calls m @ [Construct c, Setup c]\<rparr>"
    by (intro build_with_cached_deps) simp_all
  have "calls m1 = calls m0 @ concat (map (\<lambda>c. [Construct c, Setup c]) cs)"
  proof (rule Cons.IH [OF _ _ _ rest])
    from Cons.prems(1) show "distinct cs" by simp
    fix x assume x: "x \<in> set cs"
    with Cons.prems(1) have xc: "x \<noteq> c" by auto
    with Cons.prems(2) [of x] x show "\<not> has_instance m0 x" by (simp add: m0 has_instance_def)
    fix ds a assume "dependencies m0 x = Some ds" "a \<in> set ds"
    with Cons.prems(3) [of x ds a] x xc
    have "has_instance m a \<or> a = c \<or> a \<in> set (takeWhile (\<lambda>y. y \<noteq> x) cs)"
      by (auto simp: m0)
    then show "has_instance m0 a \<or> a \<in> set (takeWhile (\<lambda>y. y \<noteq> x) cs)"
      by (auto simp: m0 has_instance_def)
  qed
  then show ?case by (simp add: m0)
qed

lemma shutdown_loop_result:
  assumes "distinct cs" and "shutdown_loop K cs m = (None, m')"
  shows "calls m' = calls m @ map Teardown (filter (has_instance m) cs) \<and>
         (\<forall>c\<in>set cs. instances m' c = Some None) \<and>
         (\<forall>c. c \<notin> set cs \<longrightarrow> instances m' c = instances m c) \<and>
         dependencies m' = dependencies m \<and> dependency_graph m' = dependency_graph m"
  using assms
proof (induction cs arbitrary: m)
  case Nil
  then show ?case by simp
next
  case (Cons c cs)
  from Cons.prems(1) have d: "distinct cs" and nc: "c \<notin> set cs" by simp_all
  show ?case
  proof (cases "instances m c")
    case None
    with Cons.prems(2) show ?thesis by simp
  next
    case (Some slot)
    show ?thesis
    proof (cases slot)
      case None
      with Some Cons.prems(2) have "shutdown_loop K cs m = (None, m')" by simp
      from Cons.IH [OF d this] Some None nc show ?thesis
        by (auto simp: has_instance_def)
    next
      case (Some obj)
      note c = \<open>instances m c = Some slot\<close> Some
      obtain r obj' where t: "cls_teardown (K c) obj = (r, obj')"
        by (cases "cls_teardown (K c) obj")
      let ?m0 = "m\<lparr>instances := (instances m)(c \<mapsto> None), calls := calls m @ [Teardown c]\<rparr>"
      from Cons.prems(2) c t have "r = None" and rest: "shutdown_loop K cs ?m0 = (None, m')"
        by (cases r; simp)+
      have f: "filter (has_instance ?m0) cs = filter (has_instance m) cs"
        using nc by (intro filter_cong) (auto simp: has_instance_def)
      from c have h: "has_instance m c" by (simp add: has_instance_def)
      from Cons.IH [OF d rest]
      have ih: "calls m' = calls ?m0 @ map Teardown (filter (has_instance ?m0) cs)"
        "\<forall>x\<in>set cs. instances m' x = Some None"
        "\<forall>x. x \<notin> set cs \<longrightarrow> instances m' x = instances ?m0 x"
        "dependencies m' = dependencies ?m0" "dependency_graph m' = dependency_graph ?m0"
        by blast+
      from ih(1) h have "calls m' = calls m @ map Teardown (filter (has_instance m) (c # cs))"
        unfolding f by simp
      moreover from ih(2,3) nc have "\<forall>x\<in>set (c # cs). instances m' x = Some None" by simp
      moreover from ih(3) have "\<forall>x. x \<notin> set (c # cs) \<longrightarrow> instances m' x = instances m x" by simp
      moreover from ih(4,5) have "dependencies m' = dependencies m"
        "dependency_graph m' = dependency_graph m" by simp_all
      ultimately show ?thesis by blast
    qed
  qed
qed

lemma shutdown_empties_cache:
  assumes wf: "well_formed m"
    and contract: "topological_order (dependency_graph m) (tsort (dependency_graph m))"
    and sh: "shutdown K tsort m = (None, m1)"
  shows "\<not> has_instance m1 c"
proof -
  obtain order unfeasible where ts: "tsort (dependency_graph m) = (order, unfeasible)"
    by (cases "tsort (dependency_graph m)")
  with sh have feas: "\<not> unfeasible" and loop: "shutdown_loop K (rev order) m = (None, m1)"
    by (auto simp: shutdown_def split: if_splits)
  from contract ts feas have d: "distinct (rev order)"
    and n: "set order = set (nodes (dependency_graph m))"
    by (simp_all add: topological_order_def)
  from shutdown_loop_result [OF d loop]
  have reset: "\<forall>x\<in>set order. instances m1 x = Some None"
    and kept: "\<forall>x. x \<notin> set order \<longrightarrow> instances m1 x = instances m x"
    by simp_all
  show ?thesis
  proof (cases "c \<in> set order")
    case True
    with reset show ?thesis by (simp add: has_instance_def)
  next
    case False
    with kept have "instances m1 c = instances m c" by simp
    moreover from False n wf have "instances m c = None" by (auto simp: well_formed_def)
    ultimately show ?thesis by (simp add: has_instance_def)
  qed
qed

text \<open>
  \<open>shutdown\<close> keeps the cache ordered, also when a \<^verbatim>\<open>teardown\<close> raises: the classes
  are taken in reversed topological order, so an instance is dropped after the
  instances of the classes that depend on it.
\<close>

lemma later_in_reversed_order:
  assumes "distinct order" and "c \<in> set (takeWhile (\<lambda>x. x \<noteq> b) order)" and "b \<in> set order"
  shows "b \<in> set (takeWhile (\<lambda>x. x \<noteq> c) (rev order))"
proof -
  from assms(3) obtain pre post where o: "order = pre @ b # post" and nb: "b \<notin> set pre"
    by (auto dest: split_list_first)
  from nb have "takeWhile (\<lambda>x. x \<noteq> b) (pre @ b # post) = pre"
    by (subst takeWhile_append2) auto
  with assms(2) o have c: "c \<in> set pre" by simp
  with assms(1) o have "c \<notin> set post" and "c \<noteq> b" by auto
  then have "takeWhile (\<lambda>x. x \<noteq> c) (rev post @ b # rev pre) =
      rev post @ b # takeWhile (\<lambda>x. x \<noteq> c) (rev pre)"
    by (subst takeWhile_append2) auto
  with o show ?thesis by simp
qed

lemma ordered_cache_teardown_raised:
  assumes oc: "ordered_cache m" and c: "instances m c = Some (Some obj)"
  shows "ordered_cache (m\<lparr>instances := (instances m)(c \<mapsto> Some obj'), calls := calls m @ [Teardown c]\<rparr>)"
    (is "ordered_cache ?m'")
proof -
  have h: "has_instance ?m' x \<longleftrightarrow> has_instance m x" for x
    using c by (simp add: has_instance_def)
  show ?thesis
    unfolding ordered_cache_def
  proof (intro allI impI conjI)
    fix b assume "has_instance ?m' b"
    with oc have "set_up b (calls m)" by (simp add: h ordered_cache_def)
    then show "set_up b (calls ?m')" by (simp add: set_up_later)
  next
    fix b ds a
    assume "has_instance ?m' b" "dependencies ?m' b = Some ds" "a \<in> set ds"
    with oc have "has_instance m a" and "built_before a b (calls m)"
      by (auto simp: h ordered_cache_def)
    then show "has_instance ?m' a" and "built_before a b (calls ?m')"
      by (simp_all add: h built_before_later)
  qed
qed

lemma ordered_cache_torn_down:
  assumes oc: "ordered_cache m"
    and free: "\<And>b ds. has_instance m b \<Longrightarrow> dependencies m b = Some ds \<Longrightarrow> c \<notin> set ds"
  shows "ordered_cache (m\<lparr>instances := (instances m)(c \<mapsto> None), calls := calls m @ [Teardown c]\<rparr>)"
    (is "ordered_cache ?m'")
proof -
  have h: "has_instance ?m' x \<longleftrightarrow> x \<noteq> c \<and> has_instance m x" for x
    by (simp add: has_instance_def)
  show ?thesis
    unfolding ordered_cache_def
  proof (intro allI impI conjI)
    fix b assume "has_instance ?m' b"
    with oc have "set_up b (calls m)" by (simp add: h ordered_cache_def)
    then show "set_up b (calls ?m')" by (simp add: set_up_later)
  next
    fix b ds a
    assume hb: "has_instance ?m' b" and ds: "dependencies ?m' b = Some ds" and a: "a \<in> set ds"
    from hb have hb': "has_instance m b" by (simp add: h)
    from ds have ds': "dependencies m b = Some ds" by simp
    from oc hb' ds' a have ha: "has_instance m a" and bb: "built_before a b (calls m)"
      by (auto simp: ordered_cache_def)
    from free [OF hb' ds'] a have "a \<noteq> c" by auto
    with ha show "has_instance ?m' a" by (simp add: h)
    from bb show "built_before a b (calls ?m')" by (simp add: built_before_later)
  qed
qed

lemma shutdown_loop_keeps_order:
  assumes "shutdown_loop K cs m = (r, m1)" and "ordered_cache m"
    and "\<And>c b ds. c \<in> set cs \<Longrightarrow> has_instance m b \<Longrightarrow> dependencies m b = Some ds \<Longrightarrow>
           c \<in> set ds \<Longrightarrow> b \<in> set (takeWhile (\<lambda>x. x \<noteq> c) cs)"
  shows "ordered_cache m1"
  using assms
proof (induction cs arbitrary: m)
  case Nil
  then show ?case by simp
next
  case (Cons c cs)
  have free: "c \<notin> set ds" if "has_instance m b" "dependencies m b = Some ds" for b ds
  proof
    assume "c \<in> set ds"
    with Cons.prems(3) [of c b ds] that show False by simp
  qed
  have rest: "b \<in> set (takeWhile (\<lambda>x. x \<noteq> c') cs)"
    if "c' \<in> set cs" "has_instance m b" "b \<noteq> c" "dependencies m b = Some ds" "c' \<in> set ds"
    for c' b ds
  proof -
    from Cons.prems(3) [of c' b ds] that
    have "b \<in> set (takeWhile (\<lambda>x. x \<noteq> c') (c # cs))" by simp
    with that(3) show ?thesis by (auto split: if_splits)
  qed
  show ?case
  proof (cases "instances m c")
    case None
    with Cons.prems(1,2) show ?thesis by simp
  next
    case (Some slot)
    show ?thesis
    proof (cases slot)
      case None
      with Some Cons.prems(1) have loop: "shutdown_loop K cs m = (r, m1)" by simp
      from Some None have nc: "\<not> has_instance m c" by (simp add: has_instance_def)
      show ?thesis
      proof (rule Cons.IH [OF loop Cons.prems(2)])
        fix c' b ds
        assume "c' \<in> set cs" "has_instance m b" "dependencies m b = Some ds" "c' \<in> set ds"
        moreover with nc have "b \<noteq> c" by auto
        ultimately show "b \<in> set (takeWhile (\<lambda>x. x \<noteq> c') cs)" by (blast intro: rest)
      qed
    next
      case (Some obj)
      note c = \<open>instances m c = Some slot\<close> [unfolded Some]
      obtain e obj' where t: "cls_teardown (K c) obj = (e, obj')"
        by (cases "cls_teardown (K c) obj")
      show ?thesis
      proof (cases e)
        case (Some err)
        with Cons.prems(1) c t
        have "m1 = m\<lparr>instances := (instances m)(c \<mapsto> Some obj'), calls := calls m @ [Teardown c]\<rparr>"
          by simp
        with Cons.prems(2) c show ?thesis by (simp add: ordered_cache_teardown_raised)
      next
        case None
        let ?m0 = "m\<lparr>instances := (instances m)(c \<mapsto> None), calls := calls m @ [Teardown c]\<rparr>"
        from None Cons.prems(1) c t have loop: "shutdown_loop K cs ?m0 = (r, m1)" by simp
        from Cons.prems(2) free have o: "ordered_cache ?m0" by (rule ordered_cache_torn_down)
        show ?thesis
        proof (rule Cons.IH [OF loop o])
          fix c' b ds
          assume "c' \<in> set cs" "has_instance ?m0 b" "dependencies ?m0 b = Some ds" "c' \<in> set ds"
          then have "c' \<in> set cs" "has_instance m b" "b \<noteq> c" "dependencies m b = Some ds"
            "c' \<in> set ds"
            by (simp_all add: has_instance_def split: if_splits)
          then show "b \<in> set (takeWhile (\<lambda>x. x \<noteq> c') cs)" by (rule rest)
        qed
      qed
    qed
  qed
qed

lemma shutdown_loop_well_formed:
  "shutdown_loop K cs m = (r, m1) \<Longrightarrow> well_formed m \<Longrightarrow> well_formed m1"
proof (induction cs arbitrary: m)
  case Nil
  then show ?case by simp
next
  case (Cons c cs)
  have step: "well_formed (m\<lparr>instances := (instances m)(c \<mapsto> slot), calls := calls m @ evs\<rparr>)"
    if "instances m c \<noteq> None" for slot evs
    using Cons.prems(2) that by (auto simp: well_formed_def)
  from Cons.prems show ?case
    by (auto split: option.splits prod.splits intro: Cons.IH step)
qed

lemma shutdown_well_formed:
  "shutdown K tsort m = (r, m1) \<Longrightarrow> well_formed m \<Longrightarrow> well_formed m1"
  by (auto simp: shutdown_def split: prod.splits if_splits dest: shutdown_loop_well_formed)

lemma shutdown_keeps_order:
  assumes wf: "well_formed m"
    and contract: "topological_order (dependency_graph m) (tsort (dependency_graph m))"
    and sh: "shutdown K tsort m = (r, m1)" and oc: "ordered_cache m"
  shows "ordered_cache m1"
proof -
  obtain order unfeasible where ts: "tsort (dependency_graph m) = (order, unfeasible)"
    by (cases "tsort (dependency_graph m)")
  show ?thesis
  proof (cases unfeasible)
    case True
    with ts sh oc show ?thesis by (simp add: shutdown_def)
  next
    case False
    with ts sh have loop: "shutdown_loop K (rev order) m = (r, m1)" by (simp add: shutdown_def)
    from contract ts False have d: "distinct order"
      and n: "set order = set (nodes (dependency_graph m))"
      and before: "\<And>u v. (u, v) \<in> set (edges (dependency_graph m)) \<Longrightarrow> v \<in> set order \<Longrightarrow>
          u \<in> set (takeWhile (\<lambda>x. x \<noteq> v) order)"
      by (auto simp: topological_order_def)
    from loop oc show ?thesis
    proof (rule shutdown_loop_keeps_order)
      fix c b ds
      assume "c \<in> set (rev order)" and hb: "has_instance m b"
        and ds: "dependencies m b = Some ds" and c: "c \<in> set ds"
      from hb have "instances m b \<noteq> None" by (auto simp: has_instance_iff)
      with wf n have b: "b \<in> set order" by (simp add: well_formed_def)
      from wf ds c have "(c, b) \<in> set (edges (dependency_graph m))"
        by (auto simp: well_formed_def)
      with b have "c \<in> set (takeWhile (\<lambda>x. x \<noteq> b) order)" by (rule before [rotated])
      with d show "b \<in> set (takeWhile (\<lambda>x. x \<noteq> c) (rev order))"
        using b by (rule later_in_reversed_order)
    qed
  qed
qed

lemma constructed_pairs: "constructed (concat (map (\<lambda>c. [Construct c, Setup c]) cs)) = cs"
  by (induction cs) simp_all

lemma torn_down_teardowns: "torn_down (map Teardown cs) = cs"
  by (induction cs) simp_all


text \<open>
  Claim C6, as the code has it. A \<open>shutdown\<close> that returns normally has called
  \<open>teardown\<close> on the classes that had an instance, in the reverse of the topological
  order of the graph, and every node of the graph has an absent cache entry afterwards;
  entries outside the graph are untouched. When the instances were all built by one
  \<open>startup\<close> that began with an empty cache, they were constructed in the topological
  order, so the teardowns come in the exact reverse of the order of construction.
\<close>

theorem shutdown_reverses_order:
  assumes contract: "topological_order (dependency_graph m) (tsort (dependency_graph m))"
    and sh: "shutdown K tsort m = (None, m')"
  shows "calls m' =
       calls m @ map Teardown (filter (has_instance m) (rev (fst (tsort (dependency_graph m))))) \<and>
     (\<forall>c\<in>set (nodes (dependency_graph m)). instances m' c = Some None) \<and>
     (\<forall>c. c \<notin> set (nodes (dependency_graph m)) \<longrightarrow> instances m' c = instances m c) \<and>
     (\<forall>m0 d. (\<forall>c. \<not> has_instance m0 c) \<longrightarrow> well_formed m0 \<longrightarrow>
        startup K d tsort m0 = (None, m) \<longrightarrow>
        (\<exists>built torn. calls m = calls m0 @ built \<and> calls m' = calls m @ torn \<and>
           constructed built = fst (tsort (dependency_graph m)) \<and>
           torn_down torn = rev (constructed built)))"
proof -
  obtain order unfeasible where ts: "tsort (dependency_graph m) = (order, unfeasible)"
    by (cases "tsort (dependency_graph m)")
  with sh have feas: "\<not> unfeasible" and loop: "shutdown_loop K (rev order) m = (None, m')"
    by (auto simp: shutdown_def split: if_splits)
  from contract ts feas have dist: "distinct order"
    and all: "set order = set (nodes (dependency_graph m))"
    and before: "\<And>u v. (u, v) \<in> set (edges (dependency_graph m)) \<Longrightarrow> v \<in> set order \<Longrightarrow>
      u \<in> set (takeWhile (\<lambda>x. x \<noteq> v) order)"
    by (auto simp: topological_order_def)
  from dist have "distinct (rev order)" by simp
  from shutdown_loop_result [OF this loop]
  have res: "calls m' = calls m @ map Teardown (filter (has_instance m) (rev order))"
    "\<forall>c\<in>set order. instances m' c = Some None"
    "\<forall>c. c \<notin> set order \<longrightarrow> instances m' c = instances m c"
    by simp_all
  have "\<exists>built torn. calls m = calls m0 @ built \<and> calls m' = calls m @ torn \<and>
      constructed built = order \<and> torn_down torn = rev (constructed built)"
    if empty: "\<forall>c. \<not> has_instance m0 c" and wf: "well_formed m0"
      and st: "startup K d tsort m0 = (None, m)" for m0 d
  proof -
    from st have g: "dependency_graph m = dependency_graph m0"
      by (auto simp: startup_def frame_def split: prod.splits option.splits if_splits
          dest!: startup_loop_frame)
    with st ts have sl: "startup_loop K d order m0 = (None, m)"
      by (auto simp: startup_def split: prod.splits option.splits if_splits)
    have "calls m = calls m0 @ concat (map (\<lambda>c. [Construct c, Setup c]) order)"
    proof (rule startup_loop_in_order [OF dist _ _ sl])
      fix c show "\<not> has_instance m0 c" using empty by simp
      fix ds a assume "c \<in> set order" "dependencies m0 c = Some ds" "a \<in> set ds"
      with wf g before [of a c]
      show "has_instance m0 a \<or> a \<in> set (takeWhile (\<lambda>x. x \<noteq> c) order)"
        by (auto simp: well_formed_def)
    qed
    moreover have "has_instance m c" if "c \<in> set order" for c
      using startup_loop_caches [OF sl that] by (simp add: has_instance_iff)
    then have "filter (has_instance m) (rev order) = rev order"
      by (simp add: filter_id_conv)
    ultimately show ?thesis
      using res(1) by (simp add: constructed_pairs torn_down_teardowns)
  qed
  with res ts all show ?thesis by simp
qed


lemma chain_manager_simps:
  "instances chain_manager = [''A'' \<mapsto> None, ''B'' \<mapsto> None, ''C'' \<mapsto> None]"
  "dependencies chain_manager = [''A'' \<mapsto> [], ''B'' \<mapsto> [''A''], ''C'' \<mapsto> [''B'']]"
  "dependency_graph chain_manager =
     \<lparr>nodes = [''A'', ''B'', ''C''], edges = [(''A'', ''B''), (''B'', ''C'')]\<rparr>"
  "calls chain_manager = []"
  by (simp_all add: chain_manager_def register_def Let_def or_empty_def b_needs_a_simps
      add_node_def add_edge_def)

lemma chain_contract:
  "topological_order \<lparr>nodes = [''A'', ''B'', ''C''], edges = [(''A'', ''B''), (''B'', ''C'')]\<rparr>
     ([''A'', ''B'', ''C''], False)"
  by code_simp

lemma pair_contract:
  "topological_order \<lparr>nodes = [''A'', ''B''], edges = []\<rparr> ([''A'', ''B''], False)"
  "topological_order \<lparr>nodes = [''A'', ''B''], edges = []\<rparr> ([''B'', ''A''], False)"
  by code_simp+

lemma chain_startup:
  "startup demo_classes (Suc (Suc 0)) abc_sort chain_manager = (None, chain_started)"
  by (simp add: startup_def abc_sort_def chain_manager_simps demo_classes_simps chain_started_def)

lemma chain_shutdown:
  "shutdown demo_classes abc_sort chain_started =
     (None, chain_started
        \<lparr>instances := [''A'' \<mapsto> None, ''B'' \<mapsto> None, ''C'' \<mapsto> None],
         calls := calls chain_started @ [Teardown ''C'', Teardown ''B'', Teardown ''A'']\<rparr>)"
  by (simp add: shutdown_def abc_sort_def chain_started_def chain_manager_simps demo_classes_simps
      fun_upd_twist)


text \<open>Claim C6 at work on the chain: the teardown order is \<open>C\<close>, \<open>B\<close>, \<open>A\<close>.\<close>

theorem shutdown_reverses_order_witness:
  "calls (snd (shutdown demo_classes abc_sort chain_started)) =
     calls chain_started @ [Teardown ''C'', Teardown ''B'', Teardown ''A''] \<and>
   instances (snd (shutdown demo_classes abc_sort chain_started)) ''A'' = Some None \<and>
   instances (snd (shutdown demo_classes abc_sort chain_started)) ''B'' = Some None \<and>
   instances (snd (shutdown demo_classes abc_sort chain_started)) ''C'' = Some None \<and>
   (\<exists>built torn.
      calls chain_started = calls chain_manager @ built \<and>
      calls (snd (shutdown demo_classes abc_sort chain_started)) = calls chain_started @ torn \<and>
      constructed built = [''A'', ''B'', ''C''] \<and> torn_down torn = [''C'', ''B'', ''A''])"
proof -
  have g: "dependency_graph chain_started =
      \<lparr>nodes = [''A'', ''B'', ''C''], edges = [(''A'', ''B''), (''B'', ''C'')]\<rparr>"
    by (simp add: chain_started_def chain_manager_simps)
  have contract:
    "topological_order (dependency_graph chain_started) (abc_sort (dependency_graph chain_started))"
    unfolding g by (simp add: abc_sort_def chain_contract)
  have sh: "shutdown demo_classes abc_sort chain_started =
      (None, snd (shutdown demo_classes abc_sort chain_started))"
    by (simp add: chain_shutdown)
  have h: "filter (has_instance chain_started) (rev (fst (abc_sort gr))) = [''C'', ''B'', ''A'']"
    for gr
    by (simp add: abc_sort_def has_instance_def chain_started_def)
  have empty: "\<forall>c. \<not> has_instance chain_manager c"
    by (simp add: has_instance_def chain_manager_simps)
  have wf: "well_formed chain_manager"
    by (simp add: well_formed_def chain_manager_simps)
  note th = shutdown_reverses_order
    [of chain_started abc_sort demo_classes "snd (shutdown demo_classes abc_sort chain_started)",
      OF contract sh]
  from th have "calls (snd (shutdown demo_classes abc_sort chain_started)) =
      calls chain_started @
      map Teardown (filter (has_instance chain_started)
        (rev (fst (abc_sort (dependency_graph chain_started)))))"
    and "\<forall>c\<in>set (nodes (dependency_graph chain_started)).
      instances (snd (shutdown demo_classes abc_sort chain_started)) c = Some None"
    by blast+
  then have part1: "calls (snd (shutdown demo_classes abc_sort chain_started)) =
      calls chain_started @ [Teardown ''C'', Teardown ''B'', Teardown ''A'']"
    "instances (snd (shutdown demo_classes abc_sort chain_started)) ''A'' = Some None"
    "instances (snd (shutdown demo_classes abc_sort chain_started)) ''B'' = Some None"
    "instances (snd (shutdown demo_classes abc_sort chain_started)) ''C'' = Some None"
    by (simp_all add: h g)
  from th empty wf chain_startup
  have "\<exists>built torn.
      calls chain_started = calls chain_manager @ built \<and>
      calls (snd (shutdown demo_classes abc_sort chain_started)) = calls chain_started @ torn \<and>
      constructed built = fst (abc_sort (dependency_graph chain_started)) \<and>
      torn_down torn = rev (constructed built)"
    by blast
  then have "\<exists>built torn.
      calls chain_started = calls chain_manager @ built \<and>
      calls (snd (shutdown demo_classes abc_sort chain_started)) = calls chain_started @ torn \<and>
      constructed built = [''A'', ''B'', ''C''] \<and> torn_down torn = [''C'', ''B'', ''A'']"
    by (auto simp: abc_sort_def)
  with part1 show ?thesis by blast
qed

lemma pair_manager_simps:
  "instances pair_manager = [''A'' \<mapsto> None, ''B'' \<mapsto> None]"
  "dependencies pair_manager = [''A'' \<mapsto> [], ''B'' \<mapsto> []]"
  "dependency_graph pair_manager = \<lparr>nodes = [''A'', ''B''], edges = []\<rparr>"
  "calls pair_manager = []"
  by (simp_all add: pair_manager_def register_def Let_def or_empty_def registered_alone_eq
      add_node_def is_directed_acyclic_graph_def acyclic_empty)

lemma b_then_a_eq:
  "b_then_a = pair_manager
     \<lparr>instances := [''A'' \<mapsto> Some plain_object, ''B'' \<mapsto> Some plain_object],
      calls := [Construct ''B'', Setup ''B'', Construct ''A'', Setup ''A'']\<rparr>"
  by (simp add: b_then_a_def get_def pair_manager_simps demo_classes_simps fun_upd_twist)

lemma a_then_b_eq:
  "a_then_b = pair_manager
     \<lparr>instances := [''A'' \<mapsto> Some plain_object, ''B'' \<mapsto> Some plain_object],
      calls := [Construct ''A'', Setup ''A'', Construct ''B'', Setup ''B'']\<rparr>"
  by (simp add: a_then_b_def get_def pair_manager_simps demo_classes_simps fun_upd_twist)

text \<open>
  Claim C6 as stated fails for instances built by \<open>get\<close>. The graph of two independent
  classes has two topological orders; whichever of them the library returns, building
  the classes in the opposite order makes \<open>shutdown\<close> tear them down in the order of
  their construction, not in its reverse.
\<close>

theorem teardown_in_construction_order:
  "topological_order (dependency_graph b_then_a) (ab_sort (dependency_graph b_then_a)) \<and>
   constructed (calls b_then_a) = [''B'', ''A''] \<and>
   fst (shutdown demo_classes ab_sort b_then_a) = None \<and>
   torn_down (calls (snd (shutdown demo_classes ab_sort b_then_a))) = [''B'', ''A''] \<and>
   torn_down (calls (snd (shutdown demo_classes ab_sort b_then_a))) \<noteq>
     rev (constructed (calls b_then_a)) \<and>
   topological_order (dependency_graph a_then_b) (ba_sort (dependency_graph a_then_b)) \<and>
   constructed (calls a_then_b) = [''A'', ''B''] \<and>
   fst (shutdown demo_classes ba_sort a_then_b) = None \<and>
   torn_down (calls (snd (shutdown demo_classes ba_sort a_then_b))) = [''A'', ''B''] \<and>
   torn_down (calls (snd (shutdown demo_classes ba_sort a_then_b))) \<noteq>
     rev (constructed (calls a_then_b))"
proof -
  have s1: "shutdown demo_classes ab_sort b_then_a =
      (None, b_then_a
        \<lparr>instances := [''A'' \<mapsto> None, ''B'' \<mapsto> None],
         calls := [Construct ''B'', Setup ''B'', Construct ''A'', Setup ''A'',
                   Teardown ''B'', Teardown ''A'']\<rparr>)"
    by (simp add: shutdown_def ab_sort_def b_then_a_eq pair_manager_simps demo_classes_simps
        fun_upd_twist)
  have s2: "shutdown demo_classes ba_sort a_then_b =
      (None, a_then_b
        \<lparr>instances := [''A'' \<mapsto> None, ''B'' \<mapsto> None],
         calls := [Construct ''A'', Setup ''A'', Construct ''B'', Setup ''B'',
                   Teardown ''A'', Teardown ''B'']\<rparr>)"
    by (simp add: shutdown_def ba_sort_def a_then_b_eq pair_manager_simps demo_classes_simps
        fun_upd_twist)
  have g: "dependency_graph b_then_a = \<lparr>nodes = [''A'', ''B''], edges = []\<rparr>"
    "dependency_graph a_then_b = \<lparr>nodes = [''A'', ''B''], edges = []\<rparr>"
    by (simp_all add: b_then_a_eq a_then_b_eq pair_manager_simps)
  have c: "calls b_then_a = [Construct ''B'', Setup ''B'', Construct ''A'', Setup ''A'']"
    "calls a_then_b = [Construct ''A'', Setup ''A'', Construct ''B'', Setup ''B'']"
    by (simp_all add: b_then_a_eq a_then_b_eq)
  show ?thesis
    unfolding s1 s2 g c by (simp add: ab_sort_def ba_sort_def pair_contract)
qed

section \<open>Properties of the proxy and of the settings\<close>

text \<open>
  Claim C8. When the payload-setup operation of a proxy returns and the slot is still
  empty, \<open>setup\<close> raises the \<^verbatim>\<open>RuntimeError\<close> of the contract violation. When the
  slot holds an object, \<open>setup\<close> returns normally, and attribute and item access on
  the proxy give what the same access on that object gives.
\<close>

theorem proxy_setup_contract:
  assumes "setup_proxy_impl self = (None, self')"
  shows "(proxy_instance self' = None \<longrightarrow>
            proxy_setup setup_proxy_impl self =
              (Some (RuntimeError
                 ''The `_instance` attribute must be set in the `_setup_proxy_impl` method.'' None),
               self')) \<and>
         (\<forall>p. proxy_instance self' = Some p \<longrightarrow>
            proxy_setup setup_proxy_impl self = (None, self') \<and>
            (\<forall>item. proxy_getattr self' item =
               (case attributes p item of None \<Rightarrow> Inl (AttributeError item) | Some v \<Rightarrow> Inr v)) \<and>
            (\<forall>item. proxy_getitem self' item =
               (case items p item of None \<Rightarrow> Inl (KeyError item) | Some v \<Rightarrow> Inr v)))"
  using assms
  by (simp add: proxy_setup_def proxy_getattr_def proxy_getitem_def py_getattr_def py_getitem_def)

theorem proxy_setup_contract_witness:
  "proxy_setup forgetful_impl empty_proxy =
     (Some (RuntimeError
        ''The `_instance` attribute must be set in the `_setup_proxy_impl` method.'' None),
      empty_proxy) \<and>
   proxy_setup filling_impl empty_proxy = (None, filled_proxy) \<and>
   proxy_getattr filled_proxy ''debug'' = Inr 1 \<and>
   proxy_getitem filled_proxy ''debug'' = Inr 1"
proof -
  have h1: "forgetful_impl empty_proxy = (None, empty_proxy)"
    by (simp add: forgetful_impl_def)
  have h2: "filling_impl empty_proxy = (None, filled_proxy)"
    by (simp add: filling_impl_def empty_proxy_def filled_proxy_def)
  have e1: "proxy_instance empty_proxy = None"
    by (simp add: empty_proxy_def)
  have e2: "proxy_instance filled_proxy = Some demo_config"
    by (simp add: filled_proxy_def)
  have a: "attributes demo_config ''debug'' = Some 1" "items demo_config ''debug'' = Some 1"
    by (simp_all add: demo_config_def)
  from proxy_setup_contract [of forgetful_impl empty_proxy empty_proxy, OF h1] e1
    proxy_setup_contract [of filling_impl empty_proxy filled_proxy, OF h2] e2 a
  show ?thesis by simp
qed

lemma ascii_upper_simps:
  "ascii_upper ''app'' = ''APP''"
  "ascii_upper ''APP'' = ''APP''"
  "ascii_upper ''timeout'' = ''TIMEOUT''"
  by code_simp+

lemma demo_settings_simps:
  "get_fn demo_settings = None"
  "proxy_instance demo_settings = Some demo_config"
  "prefix demo_settings = ''APP''"
  "settings_files demo_settings = [''../settings.toml'', ''../.secrets.toml'']"
  by (simp_all add: demo_settings_def app_settings_init_def ascii_upper_simps)

text \<open>
  Claim C9, as the code has it. Take settings whose configuration is loaded. Attribute
  access with a name that the settings object does not have itself and that is no
  attribute of the configuration raises a \<^verbatim>\<open>ConfigurationError\<close>; a name that the
  settings object has itself is answered by the object and nothing is raised. Item
  access with a key that the configuration has no item for raises the
  \<^verbatim>\<open>ConfigurationError\<close>, whatever the key. The message is the text written out
  below: it names the key, lists the settings files, gives the prefix of the
  environment variables with an example in upper case, advises to check for typos and
  to use \<^verbatim>\<open>.get()\<close> with a default. \<^verbatim>\<open>get(key, default)\<close> returns a value: the default
  when the key is absent.
\<close>

theorem app_settings_missing_key:
  assumes "proxy_instance self = Some cfg"
  shows "(own_attribute builtin self key = None \<longrightarrow> attributes cfg key = None \<longrightarrow>
            app_settings_attribute builtin upper self key =
              Inl (ConfigurationError (generate_error_message upper self key))) \<and>
         (\<forall>a. own_attribute builtin self key = Some a \<longrightarrow>
            app_settings_attribute builtin upper self key = Inr a) \<and>
         (items cfg key = None \<longrightarrow>
            app_settings_getitem upper self key =
              Inl (ConfigurationError (generate_error_message upper self key))) \<and>
         generate_error_message upper self key =
           ''Setting '' @ apostrophe @ key @ apostrophe @ '' not found in configuration.'' @ newline @
           ''Please check the following:'' @ newline @
           ''1. The setting is defined in one of these files: '' @
             join '', '' (settings_files self) @ newline @
           tab @ ''Example: '' @ key @ '' = '' @ apostrophe @ ''value'' @ apostrophe @ newline @
           ''2. If it'' @ apostrophe @ ''s an environment variable, ensure it'' @ apostrophe @
             ''s prefixed with '' @ apostrophe @ prefix self @ ''_'' @ apostrophe @ newline @
           tab @ ''Example: export '' @ upper (prefix self) @ ''_'' @ upper key @ ''='' @
             apostrophe @ ''value'' @ apostrophe @ newline @
           ''3. Check for typos in the setting name'' @ newline @
           ''If the setting is optional, consider using the .get() method with a default value.'' \<and>
         (items cfg key = None \<longrightarrow> app_settings_get upper self key dflt = Inr dflt) \<and>
         (\<exists>v. app_settings_get upper self key dflt = Inr v)"
proof -
  have "app_settings_attribute builtin upper self key =
      Inl (ConfigurationError (generate_error_message upper self key))"
    if "own_attribute builtin self key = None" "attributes cfg key = None"
    using assms that
    by (simp add: app_settings_attribute_def app_settings_getattr_def proxy_getattr_def
        py_getattr_def)
  moreover
  have "app_settings_attribute builtin upper self key = Inr a"
    if "own_attribute builtin self key = Some a" for a
    using that by (simp add: app_settings_attribute_def)
  moreover
  have "app_settings_getitem upper self key =
      Inl (ConfigurationError (generate_error_message upper self key))"
    if "items cfg key = None"
    using assms that
    by (simp add: app_settings_getitem_def proxy_getitem_def py_getitem_def)
  moreover
  have "app_settings_get upper self key dflt = Inr dflt" if "items cfg key = None"
    using assms that by (simp add: app_settings_get_def)
  moreover
  have "\<exists>v. app_settings_get upper self key dflt = Inr v"
    using assms by (simp add: app_settings_get_def)
  ultimately show ?thesis
    unfolding generate_error_message_def by blast
qed

text \<open>
  Claim C9 at work: the key \<open>timeout\<close>, which the configuration does not have, on
  the settings built with the default arguments.
\<close>

theorem app_settings_missing_key_witness:
  "app_settings_attribute dunder ascii_upper demo_settings ''timeout'' =
     Inl (ConfigurationError (generate_error_message ascii_upper demo_settings ''timeout'')) \<and>
   app_settings_getitem ascii_upper demo_settings ''timeout'' =
     Inl (ConfigurationError (generate_error_message ascii_upper demo_settings ''timeout'')) \<and>
   generate_error_message ascii_upper demo_settings ''timeout'' =
     ''Setting '' @ apostrophe @ ''timeout'' @ apostrophe @ '' not found in configuration.'' @ newline @
     ''Please check the following:'' @ newline @
     ''1. The setting is defined in one of these files: ../settings.toml, ../.secrets.toml'' @ newline @
     tab @ ''Example: timeout = '' @ apostrophe @ ''value'' @ apostrophe @ newline @
     ''2. If it'' @ apostrophe @ ''s an environment variable, ensure it'' @ apostrophe @
       ''s prefixed with '' @ apostrophe @ ''APP_'' @ apostrophe @ newline @
     tab @ ''Example: export APP_TIMEOUT='' @ apostrophe @ ''value'' @ apostrophe @ newline @
     ''3. Check for typos in the setting name'' @ newline @
     ''If the setting is optional, consider using the .get() method with a default value.'' \<and>
   app_settings_get ascii_upper demo_settings ''timeout'' 30 = Inr 30"
proof -
  have h: "proxy_instance demo_settings = Some demo_config"
    by (simp add: demo_settings_simps)
  have a: "attributes demo_config ''timeout'' = None" "items demo_config ''timeout'' = None"
    by (simp_all add: demo_config_def)
  have o: "own_attribute dunder demo_settings ''timeout'' = None"
    by (simp add: own_attribute_def method_names_def dunder_def)
  from app_settings_missing_key
    [of demo_settings demo_config dunder "''timeout''" ascii_upper 30, OF h] a o
  show ?thesis
    by (simp add: demo_settings_simps ascii_upper_simps)
qed

text \<open>
  Claim C9 as stated fails for a key that is the name of an attribute of the settings
  object itself. The configuration has no setting \<open>prefix\<close> and none called \<open>setup\<close>,
  yet attribute access with these names raises nothing: it gives the field and the
  method of the settings object. Item access with the same key does raise.
\<close>

theorem own_attribute_is_returned:
  "proxy_instance demo_settings = Some demo_config \<and>
   attributes demo_config ''prefix'' = None \<and> items demo_config ''prefix'' = None \<and>
   attributes demo_config ''setup'' = None \<and> items demo_config ''setup'' = None \<and>
   app_settings_attribute dunder ascii_upper demo_settings ''prefix'' = Inr (Prefix ''APP'') \<and>
   app_settings_attribute dunder ascii_upper demo_settings ''setup'' = Inr (Defined ''setup'') \<and>
   app_settings_getitem ascii_upper demo_settings ''prefix'' =
     Inl (ConfigurationError (generate_error_message ascii_upper demo_settings ''prefix''))"
  by (simp add: demo_settings_simps demo_config_def app_settings_attribute_def own_attribute_def
      method_names_def app_settings_getitem_def proxy_getitem_def py_getitem_def)
end
